theory Spec2Isabelle
  imports Complex_Main
begin

section \<open>Numbers, coordinates and cell states\<close>

text \<open>
  The engine of \<^verbatim>\<open>src/app/xonix/xonix.ts\<close>. A TypeScript \<^verbatim>\<open>number\<close> that holds a
  continuous coordinate, a direction component or a speed is a real number; a number that
  is a grid coordinate, an array index or a counter is an integer. The one place where
  the source divides by a value that can be zero returns an explicit \<open>Number\<close> with
  the IEEE results \<^verbatim>\<open>NaN\<close> and \<^verbatim>\<open>Infinity\<close>.
\<close>

datatype Number = Finite real | NaN | PosInfinity | NegInfinity

definition js_divide :: "int \<Rightarrow> nat \<Rightarrow> Number" where
  "js_divide n d =
     (if d = 0 then (if n = 0 then NaN else if 0 < n then PosInfinity else NegInfinity)
      else Finite (of_int n / of_nat d))"

fun js_greater :: "Number \<Rightarrow> real \<Rightarrow> bool" where
  "js_greater (Finite r) t = (t < r)"
| "js_greater PosInfinity t = True"
| "js_greater NaN t = False"
| "js_greater NegInfinity t = False"

datatype CellState = OUT_OF_BOUNDS | UNCLAIMED | CLAIMED | CLAIMING

text \<open>Class \<^verbatim>\<open>XY\<close>: a pair of numbers with the floored getters.\<close>

record XY =
  xy_x :: real
  xy_y :: real

definition xRounded :: "XY \<Rightarrow> int" where
  "xRounded p = \<lfloor>xy_x p\<rfloor>"

definition yRounded :: "XY \<Rightarrow> int" where
  "yRounded p = \<lfloor>xy_y p\<rfloor>"

definition differRounded :: "XY \<Rightarrow> int \<Rightarrow> int \<Rightarrow> bool" where
  "differRounded p a b = (a \<noteq> xRounded p \<or> b \<noteq> yRounded p)"

section \<open>XonixField\<close>

text \<open>
  \<^verbatim>\<open>cells\<close> is a JavaScript array that \<^verbatim>\<open>setCellDirect\<close> writes at an index it
  does not check: it is a map from integer keys to cell states together with the
  array's \<^verbatim>\<open>length\<close>. Reading a key that was never written gives \<^verbatim>\<open>undefined\<close>
  (\<open>None\<close>); writing at or past the length extends the array; writing a negative key
  adds a property and leaves the length alone.

  \<^verbatim>\<open>couldClaim\<close> is only ever written at an index that was just read as true, so
  every write is in range and the array is a list of booleans. A hole of the freshly
  allocated array reads \<^verbatim>\<open>undefined\<close>, which every use in the source treats as
  false; holes are \<open>False\<close>.

  \<^verbatim>\<open>cellCount\<close> is indexed by the enum. The decrement of
  \<^verbatim>\<open>cellCount[undefined]\<close> that \<^verbatim>\<open>setCellDirect\<close> performs on a cell never written
  before touches a property that nothing reads; the four counters are unchanged by it.

  The constructor allocates \<^verbatim>\<open>new Array(width * height)\<close>, which throws on a
  negative or fractional length: the dimensions are naturals.
\<close>

record XonixField =
  width :: nat
  height :: nat
  cells :: "int \<Rightarrow> CellState option"
  cellsLength :: nat
  couldClaim :: "bool list"
  cellCount :: "CellState \<Rightarrow> int"

definition efficientIndex :: "XonixField \<Rightarrow> 'a::ring_1 \<Rightarrow> 'a \<Rightarrow> 'a" where
  "efficientIndex f a b = b * of_nat (width f) + a"

definition setCellDirect :: "CellState \<Rightarrow> int \<Rightarrow> XonixField \<Rightarrow> XonixField" where
  "setCellDirect v i f =
     (let decremented =
            (case cells f i of
               None \<Rightarrow> cellCount f
             | Some prevState \<Rightarrow> (cellCount f)(prevState := cellCount f prevState - 1));
          incremented = decremented(v := decremented v + 1)
      in f\<lparr>cells := (cells f)(i \<mapsto> v),
           cellsLength := (if 0 \<le> i \<and> cellsLength f \<le> nat i then nat i + 1 else cellsLength f),
           cellCount := incremented\<rparr>)"

definition setCellByXY :: "CellState \<Rightarrow> int \<Rightarrow> int \<Rightarrow> XonixField \<Rightarrow> XonixField" where
  "setCellByXY v a b f = setCellDirect v (efficientIndex f a b) f"

definition isOut :: "XonixField \<Rightarrow> int \<Rightarrow> int \<Rightarrow> bool" where
  "isOut f a b = (a < 0 \<or> int (width f) \<le> a \<or> b < 0 \<or> int (height f) \<le> b)"

text \<open>\<^verbatim>\<open>getCell\<close> returns what the array holds; \<open>None\<close> is \<^verbatim>\<open>undefined\<close>.\<close>

definition getCell :: "XonixField \<Rightarrow> int \<Rightarrow> int \<Rightarrow> CellState option" where
  "getCell f a b =
     (if isOut f a b then Some OUT_OF_BOUNDS else cells f (efficientIndex f a b))"

text \<open>The constructor: every cell is written \<^verbatim>\<open>UNCLAIMED\<close> through \<^verbatim>\<open>setCellDirect\<close>.\<close>

definition newField :: "nat \<Rightarrow> nat \<Rightarrow> XonixField" where
  "newField w h =
     foldl (\<lambda>f i. setCellDirect UNCLAIMED (int i) f)
       \<lparr>width = w, height = h, cells = Map.empty, cellsLength = w * h,
        couldClaim = replicate (w * h) False, cellCount = (\<lambda>_. 0)\<rparr>
       [0..<w * h]"

text \<open>The loop shared by \<^verbatim>\<open>clearClaiming\<close> and the first loop of \<^verbatim>\<open>claim\<close>.\<close>

definition convertClaiming :: "CellState \<Rightarrow> XonixField \<Rightarrow> XonixField" where
  "convertClaiming v f =
     foldl (\<lambda>g i. if cells g (int i) = Some CLAIMING then setCellDirect v (int i) g else g)
       f [0..<cellsLength f]"

definition clearClaiming :: "XonixField \<Rightarrow> XonixField" where
  "clearClaiming f = convertClaiming UNCLAIMED f"

definition claimedRatio :: "XonixField \<Rightarrow> Number" where
  "claimedRatio f = js_divide (cellCount f CLAIMED) (cellsLength f)"

subsection \<open>The span fill of \<^verbatim>\<open>claim\<close>\<close>

definition couldClaimAt :: "XonixField \<Rightarrow> int \<Rightarrow> bool" where
  "couldClaimAt f i = (0 \<le> i \<and> nat i < length (couldClaim f) \<and> couldClaim f ! nat i)"

definition shouldStopScan :: "XonixField \<Rightarrow> int \<Rightarrow> bool" where
  "shouldStopScan f i = (cells f i = Some CLAIMED \<or> \<not> couldClaimAt f i)"

definition unmark :: "XonixField \<Rightarrow> int \<Rightarrow> XonixField" where
  "unmark f i = f\<lparr>couldClaim := (couldClaim f)[nat i := False]\<rparr>"

text \<open>\<^verbatim>\<open>for (; lx >= rowStart; lx--)\<close>: returns the field and the final \<^verbatim>\<open>lx\<close>.\<close>

function scanLeft :: "XonixField \<Rightarrow> int \<Rightarrow> int \<Rightarrow> XonixField \<times> int" where
  "scanLeft f rowStart lx =
     (if rowStart \<le> lx
      then (if shouldStopScan f lx then (f, lx) else scanLeft (unmark f lx) rowStart (lx - 1))
      else (f, lx))"
  by pat_completeness auto
termination
  by (relation "measure (\<lambda>(f, rowStart, lx). nat (lx - rowStart + 1))") auto

text \<open>\<^verbatim>\<open>for (; rx <= rowEnd; rx++)\<close>: returns the field and the final \<^verbatim>\<open>rx\<close>.\<close>

function scanRight :: "XonixField \<Rightarrow> int \<Rightarrow> int \<Rightarrow> XonixField \<times> int" where
  "scanRight f rowEnd rx =
     (if rx \<le> rowEnd
      then (if shouldStopScan f rx then (f, rx) else scanRight (unmark f rx) rowEnd (rx + 1))
      else (f, rx))"
  by pat_completeness auto
termination
  by (relation "measure (\<lambda>(f, rowEnd, rx). nat (rowEnd - rx + 1))") auto

text \<open>
  The last loop of the body pushes, for every index of the span in ascending order, the
  index above and then the index below when they are not scan boundaries. The stack is
  a list whose head is the top.
\<close>

definition pushAboveBelow :: "XonixField \<Rightarrow> int list \<Rightarrow> int \<Rightarrow> int list" where
  "pushAboveBelow f stack i =
     (let w = int (width f);
          aboveIndex = i - w;
          stack1 = (if \<not> shouldStopScan f aboveIndex then aboveIndex # stack else stack);
          belowIndex = i + w
      in if \<not> shouldStopScan f belowIndex then belowIndex # stack1 else stack1)"

text \<open>
  One pass of the body of \<^verbatim>\<open>while (stack.length)\<close> for a popped index that is not a
  scan boundary. With a width of zero \<^verbatim>\<open>Math.floor(cellIndex / this.width)\<close> is
  \<^verbatim>\<open>Infinity\<close> or \<^verbatim>\<open>NaN\<close>, both row bounds are \<^verbatim>\<open>NaN\<close>, every loop condition is
  false and the pass changes nothing.
\<close>

definition scanSpan :: "XonixField \<Rightarrow> int \<Rightarrow> int list \<Rightarrow> XonixField \<times> int list" where
  "scanSpan f cellIndex stack =
     (if width f = 0 then (f, stack)
      else
        let b = cellIndex div int (width f);
            rowStart = efficientIndex f 0 b;
            rowEnd = efficientIndex f (int (width f) - 1) b;
            (f1, lx) = scanLeft f rowStart cellIndex;
            (f2, rx) = scanRight f1 rowEnd (cellIndex + 1)
        in (f2, foldl (pushAboveBelow f2) stack [lx + 1..rx - 1]))"

text \<open>
  The \<^verbatim>\<open>while\<close> loop itself may in principle run forever, so it is a partial function:
  \<open>None\<close> is a loop that does not return.
\<close>

partial_function (option) scanLoop :: "XonixField \<Rightarrow> int list \<Rightarrow> XonixField option" where
  "scanLoop f stack =
     (case stack of
        [] \<Rightarrow> Some f
      | cellIndex # rest \<Rightarrow>
          if shouldStopScan f cellIndex then scanLoop f rest
          else scanLoop (fst (scanSpan f cellIndex rest)) (snd (scanSpan f cellIndex rest)))"

text \<open>
  \<^verbatim>\<open>startScan(x, y)\<close> is called with the enemy's raw coordinates. When
  \<^verbatim>\<open>y * width + x\<close> is not an integer, both array reads of \<^verbatim>\<open>shouldStopScan\<close> give
  \<^verbatim>\<open>undefined\<close>, the only stack entry is a boundary and the scan ends at once.
\<close>

definition isInteger :: "real \<Rightarrow> bool" where
  "isInteger q = (of_int \<lfloor>q\<rfloor> = q)"

definition startScan :: "XonixField \<Rightarrow> real \<Rightarrow> real \<Rightarrow> XonixField option" where
  "startScan f startX startY =
     (let i = efficientIndex f startX startY
      in if isInteger i then scanLoop f [\<lfloor>i\<rfloor>] else Some f)"

fun startScans :: "XonixField \<Rightarrow> XY list \<Rightarrow> XonixField option" where
  "startScans f [] = Some f"
| "startScans f (p # ps) =
     (case startScan f (xy_x p) (xy_y p) of None \<Rightarrow> None | Some g \<Rightarrow> startScans g ps)"

definition claimMarked :: "XonixField \<Rightarrow> XonixField" where
  "claimMarked f =
     foldl (\<lambda>g i. if couldClaim g ! i then setCellDirect CLAIMED (int i) g else g)
       f [0..<length (couldClaim f)]"

text \<open>
  \<^verbatim>\<open>claim(enemies)\<close> reads only the position of each enemy, so it takes the list of
  positions.
\<close>

definition claim :: "XonixField \<Rightarrow> XY list \<Rightarrow> XonixField option" where
  "claim f enemyPositions =
     (let sealed = convertClaiming CLAIMED f;
          masked = sealed\<lparr>couldClaim := replicate (length (couldClaim sealed)) True\<rparr>
      in case startScans masked enemyPositions of
           None \<Rightarrow> None
         | Some scanned \<Rightarrow> Some (claimMarked scanned))"

section \<open>Entities\<close>

text \<open>
  Class \<^verbatim>\<open>Entity\<close> and its subclasses. The display colour is left out: nothing in the
  simulation reads it. \<^verbatim>\<open>Destroyer\<close> extends \<^verbatim>\<open>Enemy\<close> without adding a field; the
  flag \<open>isDestroyer\<close> records which class the object is an instance of.
\<close>

record Entity =
  position :: XY
  direction :: XY
  speed :: real

record Player = Entity +
  lives :: int
  claiming :: bool

record Enemy = Entity +
  isDestroyer :: bool

text \<open>
  Object identity (\<^verbatim>\<open>item !== this\<close>, \<^verbatim>\<open>instanceof Player\<close>): an entity of a level is
  named by its place in \<^verbatim>\<open>level.entities\<close>, the player or the enemy at an index.
\<close>

datatype EntityRef = PlayerRef | EnemyRef nat

record Collision =
  col_x :: int
  col_y :: int
  currentCellState :: "CellState option"
  collidedCellState :: "CellState option"
  collidedEntity :: "EntityRef option"

text \<open>
  The three subjects \<^verbatim>\<open>_win\<close>, \<^verbatim>\<open>_die\<close> and \<^verbatim>\<open>_lose\<close>: every \<^verbatim>\<open>next\<close> is
  appended to the level's log of notifications. Subscribers are outside the engine and
  are taken not to touch the level. The colours, the background and
  \<^verbatim>\<open>countdownTime\<close> are left out: neither \<^verbatim>\<open>die\<close>, \<^verbatim>\<open>claim\<close> nor an entity's
  update reads them. The timer is modelled on its own below; the level subscribes
  \<^verbatim>\<open>lose\<close> to its time-up, a third source of \<^verbatim>\<open>Lose\<close> besides the calls modelled
  here.
\<close>

datatype Notification = Win | Die | Lose

record XonixLevel =
  field :: XonixField
  enemies :: "Enemy list"
  player :: Player
  defaultPlayerPosition :: XY
  claimRatioWin :: real
  notifications :: "Notification list"

definition entities :: "XonixLevel \<Rightarrow> (EntityRef \<times> XY) list" where
  "entities L =
     (PlayerRef, position (player L)) #
     map (\<lambda>i. (EnemyRef i, position (enemies L ! i))) [0..<length (enemies L)]"

subsection \<open>Level: win, die, lose, claim\<close>

definition win :: "XonixLevel \<Rightarrow> XonixLevel" where
  "win L = L\<lparr>notifications := notifications L @ [Win]\<rparr>"

definition lose :: "XonixLevel \<Rightarrow> XonixLevel" where
  "lose L = L\<lparr>notifications := notifications L @ [Lose]\<rparr>"

definition die :: "XonixLevel \<Rightarrow> XonixLevel" where
  "die L =
     (let L1 = L\<lparr>player := (player L)\<lparr>lives := lives (player L) - 1\<rparr>\<rparr>;
          L2 = L1\<lparr>notifications := notifications L1 @ [Die]\<rparr>;
          L3 = L2\<lparr>player := (player L2)\<lparr>speed := 0\<rparr>\<rparr>;
          L4 = L3\<lparr>player := (player L3)\<lparr>position :=
                 \<lparr>xy_x = xy_x (defaultPlayerPosition L3), xy_y = xy_y (defaultPlayerPosition L3)\<rparr>\<rparr>\<rparr>;
          L5 = L4\<lparr>field := clearClaiming (field L4)\<rparr>
      in if lives (player L5) < 0 then lose L5 else L5)"

definition Level_claim :: "XonixLevel \<Rightarrow> XonixLevel option" where
  "Level_claim L =
     (case claim (field L) (map position (enemies L)) of
        None \<Rightarrow> None
      | Some g \<Rightarrow>
          (let L1 = L\<lparr>field := g\<rparr>;
               claimRatio = claimedRatio (field L1)
           in Some (if js_greater claimRatio (claimRatioWin L1) then win L1 else L1)))"

subsection \<open>Collision probing\<close>

text \<open>\<^verbatim>\<open>a || b\<close> on \<^verbatim>\<open>Collision | undefined\<close>: an object is truthy.\<close>

definition orElse :: "'a option \<Rightarrow> 'a option \<Rightarrow> 'a option" where
  "orElse a b = (case a of Some c \<Rightarrow> Some c | None \<Rightarrow> b)"

definition checkCollisionForPosition ::
  "(int \<Rightarrow> int \<Rightarrow> 'a) \<Rightarrow> ('a \<Rightarrow> bool) \<Rightarrow> ('a \<Rightarrow> Collision \<Rightarrow> Collision) \<Rightarrow>
   CellState option \<Rightarrow> int \<Rightarrow> int \<Rightarrow> Collision option" where
  "checkCollisionForPosition provider predicate collisionFactory current a b =
     (let nextCell = provider a b
      in if predicate nextCell
         then Some (collisionFactory nextCell
                \<lparr>col_x = a, col_y = b, currentCellState = current,
                 collidedCellState = None, collidedEntity = None\<rparr>)
         else None)"

definition checkCollisions ::
  "(int \<Rightarrow> int \<Rightarrow> 'a) \<Rightarrow> ('a \<Rightarrow> bool) \<Rightarrow> ('a \<Rightarrow> Collision \<Rightarrow> Collision) \<Rightarrow>
   CellState option \<Rightarrow> int \<Rightarrow> int \<Rightarrow> int \<Rightarrow> int \<Rightarrow> Collision option" where
  "checkCollisions provider predicate collisionFactory current currX currY nextX nextY =
     orElse (checkCollisionForPosition provider predicate collisionFactory current nextX currY)
       (orElse (checkCollisionForPosition provider predicate collisionFactory current currX nextY)
          (checkCollisionForPosition provider predicate collisionFactory current nextX nextY))"

text \<open>
  The entity provider: \<^verbatim>\<open>level.entities.find(entity => !entity.position.differRounded(x, y))\<close>,
  the first entity of the list standing on the cell.
\<close>

definition findEntity :: "XonixLevel \<Rightarrow> int \<Rightarrow> int \<Rightarrow> EntityRef option" where
  "findEntity L a b =
     map_option fst (find (\<lambda>(r, p). \<not> differRounded p a b) (entities L))"

definition checkCollision ::
  "XonixLevel \<Rightarrow> EntityRef \<Rightarrow> int \<Rightarrow> int \<Rightarrow> int \<Rightarrow> int \<Rightarrow> Collision option" where
  "checkCollision L this currX currY nextX nextY =
     (let currCell = getCell (field L) currX currY
      in orElse
           (checkCollisions
              (\<lambda>a b. getCell (field L) a b)
              (\<lambda>item. currCell \<noteq> item)
              (\<lambda>item c. c\<lparr>collidedCellState := item\<rparr>)
              currCell currX currY nextX nextY)
           (checkCollisions
              (\<lambda>a b. findEntity L a b)
              (\<lambda>item. item \<noteq> None \<and> item \<noteq> Some this)
              (\<lambda>item c. c\<lparr>collidedEntity := item\<rparr>)
              currCell currX currY nextX nextY))"

text \<open>The first half of \<^verbatim>\<open>Entity.update\<close>: the next position and the probe.\<close>

definition nextPosition :: "'a Entity_scheme \<Rightarrow> real \<Rightarrow> XY" where
  "nextPosition e delta =
     (let deltaSpeed = speed e * delta
      in \<lparr>xy_x = xy_x (position e) + xy_x (direction e) * deltaSpeed,
          xy_y = xy_y (position e) + xy_y (direction e) * deltaSpeed\<rparr>)"

definition probe :: "XonixLevel \<Rightarrow> EntityRef \<Rightarrow> 'a Entity_scheme \<Rightarrow> real \<Rightarrow> Collision option" where
  "probe L this e delta =
     checkCollision L this
       \<lfloor>xy_x (position e)\<rfloor> \<lfloor>xy_y (position e)\<rfloor>
       \<lfloor>xy_x (nextPosition e delta)\<rfloor> \<lfloor>xy_y (nextPosition e delta)\<rfloor>"

subsection \<open>Player\<close>

definition Player_onCollision :: "XonixLevel \<Rightarrow> Collision \<Rightarrow> XonixLevel option" where
  "Player_onCollision L c =
     (let collidedState = collidedCellState c;
          snapped = \<lparr>xy_x = of_int (col_x c), xy_y = of_int (col_y c)\<rparr>
      in if collidedState = Some OUT_OF_BOUNDS then
           Some (L\<lparr>player := (player L)\<lparr>speed := 0\<rparr>\<rparr>)
         else if collidedState = Some UNCLAIMED then
           Some (L\<lparr>player := (player L)\<lparr>position := snapped, claiming := True\<rparr>\<rparr>)
         else if collidedState = Some CLAIMED then
           (let L1 = L\<lparr>field := setCellByXY CLAIMING (xRounded (position (player L)))
                                 (yRounded (position (player L))) (field L)\<rparr>;
                L2 = L1\<lparr>player := (player L1)\<lparr>position := snapped\<rparr>\<rparr>
            in case Level_claim L2 of
                 None \<Rightarrow> None
               | Some L3 \<Rightarrow> Some (L3\<lparr>player := (player L3)\<lparr>claiming := False\<rparr>\<rparr>))
         else if collidedState = Some CLAIMING then
           Some (die (L\<lparr>player := (player L)\<lparr>claiming := False\<rparr>\<rparr>))
         else Some L)"

definition Player_update :: "real \<Rightarrow> XonixLevel \<Rightarrow> XonixLevel option" where
  "Player_update delta L =
     (let prevX = xRounded (position (player L));
          prevY = yRounded (position (player L));
          updated =
            (case probe L PlayerRef (player L) delta of
               Some c \<Rightarrow> Player_onCollision L c
             | None \<Rightarrow> Some (L\<lparr>player := (player L)\<lparr>position := nextPosition (player L) delta\<rparr>\<rparr>))
      in case updated of
           None \<Rightarrow> None
         | Some L1 \<Rightarrow>
             Some (if claiming (player L1)
                      \<and> differRounded (position (player L1)) prevX prevY
                      \<and> getCell (field L1) prevX prevY \<noteq> Some CLAIMED
                   then L1\<lparr>field := setCellByXY CLAIMING prevX prevY (field L1)\<rparr>
                   else L1))"

subsection \<open>Enemy and Destroyer\<close>

text \<open>\<open>i\<close> is the index of \<^verbatim>\<open>this\<close> in \<^verbatim>\<open>level.enemies\<close>.\<close>

definition Enemy_onCollision :: "XonixLevel \<Rightarrow> nat \<Rightarrow> Collision \<Rightarrow> XonixLevel" where
  "Enemy_onCollision L i c =
     (let this = enemies L ! i;
          collidedState = collidedCellState c;
          playerCollided = (collidedEntity c = Some PlayerRef);
          notVerticalCollide = (col_x c \<noteq> xRounded (position this));
          notHorizontalCollide = (col_y c \<noteq> yRounded (position this));
          d1 = (if notVerticalCollide
                then (direction this)\<lparr>xy_x := xy_x (direction this) * (- 1)\<rparr>
                else direction this);
          d2 = (if notHorizontalCollide then d1\<lparr>xy_y := xy_y d1 * (- 1)\<rparr> else d1);
          L1 = L\<lparr>enemies := (enemies L)[i := this\<lparr>direction := d2\<rparr>]\<rparr>
      in if collidedState = Some CLAIMING \<or> playerCollided then die L1 else L1)"

definition Destroyer_onCollision :: "XonixLevel \<Rightarrow> nat \<Rightarrow> Collision \<Rightarrow> XonixLevel" where
  "Destroyer_onCollision L i c =
     (let L1 = Enemy_onCollision L i c
      in if collidedCellState c = Some CLAIMED
         then L1\<lparr>field := setCellByXY UNCLAIMED (col_x c) (col_y c) (field L1)\<rparr>
         else L1)"

definition Enemy_update :: "real \<Rightarrow> XonixLevel \<Rightarrow> nat \<Rightarrow> XonixLevel" where
  "Enemy_update delta L i =
     (let this = enemies L ! i
      in case probe L (EnemyRef i) this delta of
           Some c \<Rightarrow>
             (if isDestroyer this then Destroyer_onCollision L i c else Enemy_onCollision L i c)
         | None \<Rightarrow> L\<lparr>enemies := (enemies L)[i := this\<lparr>position := nextPosition this delta\<rparr>]\<rparr>)"

text \<open>\<^verbatim>\<open>XonixGame.update\<close>: the player first, then the enemies in list order.\<close>

definition Game_update :: "real \<Rightarrow> XonixLevel \<Rightarrow> XonixLevel option" where
  "Game_update delta L =
     (case Player_update delta L of
        None \<Rightarrow> None
      | Some L1 \<Rightarrow> Some (foldl (Enemy_update delta) L1 [0..<length (enemies L)]))"

section \<open>XonixTimer\<close>

text \<open>
  \<open>interval\<close> is the scheduled callback: \<open>None\<close> when none is scheduled, otherwise the
  \<^verbatim>\<open>countdown\<close> flag its closure captured. \<open>timeUps\<close> counts the emissions of
  \<^verbatim>\<open>_onTimeUp\<close>. \<open>secondTick\<close> is one firing of the scheduler; without a scheduled
  callback nothing runs.
\<close>

record XonixTimer =
  seconds :: int
  interval :: "bool option"
  paused :: bool
  timeUps :: nat

definition newTimer :: XonixTimer where
  "newTimer = \<lparr>seconds = 0, interval = None, paused = False, timeUps = 0\<rparr>"

definition resume :: "XonixTimer \<Rightarrow> XonixTimer" where
  "resume t = t\<lparr>paused := False\<rparr>"

definition pause :: "XonixTimer \<Rightarrow> XonixTimer" where
  "pause t = t\<lparr>paused := True\<rparr>"

definition stop :: "XonixTimer \<Rightarrow> XonixTimer" where
  "stop t = t\<lparr>seconds := 0, interval := None\<rparr>"

definition start :: "bool \<Rightarrow> int \<Rightarrow> XonixTimer \<Rightarrow> XonixTimer" where
  "start countdown startSeconds t =
     (if paused t then resume t
      else (stop t)\<lparr>seconds := startSeconds, interval := Some countdown\<rparr>)"

definition secondTick :: "XonixTimer \<Rightarrow> XonixTimer" where
  "secondTick t =
     (case interval t of
        None \<Rightarrow> t
      | Some countdown \<Rightarrow>
          if paused t then t
          else
            (let increment = (if countdown then - 1 else 1);
                 t1 = t\<lparr>seconds := seconds t + increment\<rparr>
             in if countdown \<and> seconds t1 < 0
                then pause (t1\<lparr>timeUps := timeUps t1 + 1\<rparr>)
                else t1))"

text \<open>
  \<^verbatim>\<open>formatDate\<close> belongs to the framework, not to this repository: it is a parameter,
  called with the milliseconds, the format and the locale.
\<close>

definition toString :: "(int \<Rightarrow> string \<Rightarrow> string \<Rightarrow> string) \<Rightarrow> XonixTimer \<Rightarrow> string" where
  "toString formatDate t = formatDate (max 0 (seconds t) * 1000) ''mm:ss'' ''en''"

section \<open>Specification-side definitions and example states\<close>

text \<open>
  The probing order as the specification words it: the candidates in the fixed order,
  and at each candidate the cell lookup and then the entity lookup.
\<close>

definition checkCollision_candidateMajor ::
  "XonixLevel \<Rightarrow> EntityRef \<Rightarrow> int \<Rightarrow> int \<Rightarrow> int \<Rightarrow> int \<Rightarrow> Collision option" where
  "checkCollision_candidateMajor L this currX currY nextX nextY =
     (let currCell = getCell (field L) currX currY;
          atCandidate = (\<lambda>a b.
            orElse
              (checkCollisionForPosition (\<lambda>a b. getCell (field L) a b) (\<lambda>item. currCell \<noteq> item)
                 (\<lambda>item c. c\<lparr>collidedCellState := item\<rparr>) currCell a b)
              (checkCollisionForPosition (\<lambda>a b. findEntity L a b)
                 (\<lambda>item. item \<noteq> None \<and> item \<noteq> Some this)
                 (\<lambda>item c. c\<lparr>collidedEntity := item\<rparr>) currCell a b))
      in orElse (atCandidate nextX currY)
           (orElse (atCandidate currX nextY) (atCandidate nextX nextY)))"

text \<open>
  A caller's sequence of \<^verbatim>\<open>die()\<close> calls, \<^verbatim>\<open>claim()\<close> calls and ticks on one
  level; a tick is \<^verbatim>\<open>XonixGame.update\<close> with the constant step 1 of \<^verbatim>\<open>tick()\<close>.
\<close>

datatype LevelCall = CallDie | CallClaim | CallTick

fun runCalls :: "XonixLevel \<Rightarrow> LevelCall list \<Rightarrow> XonixLevel option" where
  "runCalls L [] = Some L"
| "runCalls L (CallDie # cs) = runCalls (die L) cs"
| "runCalls L (CallClaim # cs) =
     (case Level_claim L of None \<Rightarrow> None | Some L1 \<Rightarrow> runCalls L1 cs)"
| "runCalls L (CallTick # cs) =
     (case Game_update 1 L of None \<Rightarrow> None | Some L1 \<Rightarrow> runCalls L1 cs)"

text \<open>
  What a step from \<open>L\<close> to \<open>L'\<close> adds to the notifications: at most \<open>k\<close> times
  \<^verbatim>\<open>Win\<close> and at most \<open>m\<close> times \<^verbatim>\<open>Lose\<close>, with as many enemies after as before.
\<close>

definition emits :: "XonixLevel \<Rightarrow> XonixLevel \<Rightarrow> nat \<Rightarrow> nat \<Rightarrow> bool" where
  "emits L L' k m =
     (\<exists>new. notifications L' = notifications L @ new
        \<and> count_list new Win \<le> k \<and> count_list new Lose \<le> m
        \<and> length (enemies L') = length (enemies L))"

text \<open>The number of could-claim flags that are still true: what the span fill uses up.\<close>

definition flagsLeft :: "XonixField \<Rightarrow> nat" where
  "flagsLeft f = length (filter (\<lambda>b. b) (couldClaim f))"

text \<open>
  A 3x3 field whose cells (1,0) and (0,1) are claimed: the corner (0,0) is cut off from
  the other six unclaimed cells.
\<close>

definition pocketField :: XonixField where
  "pocketField = setCellByXY CLAIMED 1 0 (setCellByXY CLAIMED 0 1 (newField 3 3))"

text \<open>
  A 3x3 level with the cell (1,2) claimed, the player standing on (2,1) and one enemy on
  (1,1) heading down and to the right.
\<close>

definition cornerLevel :: XonixLevel where
  "cornerLevel =
     \<lparr>field = setCellByXY CLAIMED 1 2 (newField 3 3),
      enemies = [\<lparr>position = \<lparr>xy_x = 1, xy_y = 1\<rparr>, direction = \<lparr>xy_x = 1, xy_y = 1\<rparr>,
                  speed = 1, isDestroyer = False\<rparr>],
      player = \<lparr>position = \<lparr>xy_x = 2, xy_y = 1\<rparr>, direction = \<lparr>xy_x = 0, xy_y = 0\<rparr>,
                 speed = 0, lives = 0, claiming = False\<rparr>,
      defaultPlayerPosition = \<lparr>xy_x = 2, xy_y = 1\<rparr>, claimRatioWin = 4 / 5,
      notifications = []\<rparr>"

text \<open>
  A 3x3 level as the builder makes it from \<^verbatim>\<open>resize(3, 3)\<close>,
  \<^verbatim>\<open>setDefaultPlayerPosition(1, 1)\<close> and \<^verbatim>\<open>addEnemy(1, 1)\<close>: the player, with no life
  to spare and not moving, and the enemy stand on the same cell.
\<close>

definition stackedLevel :: XonixLevel where
  "stackedLevel =
     \<lparr>field = newField 3 3,
      enemies = [\<lparr>position = \<lparr>xy_x = 1, xy_y = 1\<rparr>, direction = \<lparr>xy_x = 1, xy_y = 1\<rparr>,
                  speed = 1, isDestroyer = False\<rparr>],
      player = \<lparr>position = \<lparr>xy_x = 1, xy_y = 1\<rparr>, direction = \<lparr>xy_x = 0, xy_y = 0\<rparr>,
                 speed = 0, lives = 0, claiming = False\<rparr>,
      defaultPlayerPosition = \<lparr>xy_x = 1, xy_y = 1\<rparr>, claimRatioWin = 4 / 5,
      notifications = []\<rparr>"

text \<open>
  The cells the grid actually holds in a state, counted over the array, and the field
  states that construction followed by in-bounds writes of a stored state, \<^verbatim>\<open>claim\<close>
  and \<^verbatim>\<open>clearClaiming\<close> can reach.
\<close>

definition countCells :: "XonixField \<Rightarrow> CellState \<Rightarrow> int" where
  "countCells f s = int (length (filter (\<lambda>i. cells f (int i) = Some s) [0..<cellsLength f]))"

inductive reachableField :: "XonixField \<Rightarrow> bool" where
  constructed: "reachableField (newField w h)"
| cellSet: "reachableField f \<Longrightarrow> \<not> isOut f a b \<Longrightarrow> v \<noteq> OUT_OF_BOUNDS \<Longrightarrow>
     reachableField (setCellByXY v a b f)"
| claimed: "reachableField f \<Longrightarrow> claim f enemyPositions = Some g \<Longrightarrow> reachableField g"
| cleared: "reachableField f \<Longrightarrow> reachableField (clearClaiming f)"

definition storedState :: "CellState option \<Rightarrow> bool" where
  "storedState c = (c = Some UNCLAIMED \<or> c = Some CLAIMED \<or> c = Some CLAIMING)"

definition fieldInv :: "XonixField \<Rightarrow> bool" where
  "fieldInv f =
     (cellsLength f = width f * height f
      \<and> length (couldClaim f) = width f * height f
      \<and> (\<forall>i < cellsLength f. storedState (cells f (int i)))
      \<and> (\<forall>s. cellCount f s = countCells f s))"

text \<open>Two fields that differ at most in their could-claim flags, of which they have equally many.\<close>

definition sameButFlags :: "XonixField \<Rightarrow> XonixField \<Rightarrow> bool" where
  "sameButFlags f g =
     (g = f\<lparr>couldClaim := couldClaim g\<rparr> \<and> length (couldClaim g) = length (couldClaim f))"

text \<open>
  Four-connected reachability on the row-major grid, by index: a vertical neighbour is
  one width away, a horizontal neighbour is one index away in the same row. A cell is
  open when it is a cell of the grid and not claimed. \<open>reachableCells f S\<close> are the
  open cells joined to an open seed of \<open>S\<close> through open cells.
\<close>

definition openCell :: "XonixField \<Rightarrow> int \<Rightarrow> bool" where
  "openCell f i = (0 \<le> i \<and> nat i < width f * height f \<and> cells f i \<noteq> Some CLAIMED)"

definition adjacent :: "XonixField \<Rightarrow> int \<Rightarrow> int \<Rightarrow> bool" where
  "adjacent f i j =
     (j = i + int (width f) \<or> j = i - int (width f)
      \<or> (j = i + 1 \<and> j div int (width f) = i div int (width f))
      \<or> (j = i - 1 \<and> j div int (width f) = i div int (width f)))"

inductive_set reachableCells :: "XonixField \<Rightarrow> int set \<Rightarrow> int set"
  for f :: XonixField and S :: "int set" where
  seed: "s \<in> S \<Longrightarrow> openCell f s \<Longrightarrow> s \<in> reachableCells f S"
| step: "i \<in> reachableCells f S \<Longrightarrow> adjacent f i j \<Longrightarrow> openCell f j \<Longrightarrow>
     j \<in> reachableCells f S"

text \<open>A cell whose could-claim flag has been cleared by a scan.\<close>

definition marked :: "XonixField \<Rightarrow> int \<Rightarrow> bool" where
  "marked f i = (0 \<le> i \<and> nat i < length (couldClaim f) \<and> \<not> couldClaim f ! nat i)"

text \<open>An enemy position that names a cell of the grid: integer coordinates, in bounds.\<close>

definition onGrid :: "XonixField \<Rightarrow> XY \<Rightarrow> bool" where
  "onGrid f p =
     (isInteger (xy_x p) \<and> isInteger (xy_y p) \<and> \<not> isOut f (xRounded p) (yRounded p))"

definition seedIndex :: "XonixField \<Rightarrow> XY \<Rightarrow> int" where
  "seedIndex f p = efficientIndex f (xRounded p) (yRounded p)"

text \<open>
  The invariant of the fill, for the masked field \<open>f0\<close> the scans start from and the
  seeds \<open>S\<close> handled so far: only flags have changed; every marked cell and every open
  cell on the stack is reachable; every open neighbour of a marked cell, and every open
  seed, is marked or waits on the stack.
\<close>

definition fillInv :: "XonixField \<Rightarrow> int set \<Rightarrow> XonixField \<Rightarrow> int list \<Rightarrow> bool" where
  "fillInv f0 S g st =
     (sameButFlags f0 g
      \<and> (\<forall>j. marked g j \<longrightarrow> j \<in> reachableCells f0 S)
      \<and> (\<forall>j \<in> set st. openCell f0 j \<longrightarrow> j \<in> reachableCells f0 S)
      \<and> (\<forall>j k. marked g j \<and> adjacent f0 j k \<and> openCell f0 k \<longrightarrow> marked g k \<or> k \<in> set st)
      \<and> (\<forall>s \<in> S. openCell f0 s \<longrightarrow> marked g s \<or> s \<in> set st))"

declare scanLeft.simps [simp del] scanRight.simps [simp del]

section \<open>Properties\<close>

subsection \<open>Timer\<close>

text \<open>
  C7. A timer that is not paused and is started with \<^verbatim>\<open>start(true, 3)\<close>: none of the
  first three firings of its schedule emits time-up, after the third the seconds are 0
  and the timer still runs; the fourth firing emits exactly one time-up and leaves the
  timer paused, and later firings change nothing. For every timer, \<^verbatim>\<open>toString\<close> hands
  the formatter the seconds clamped at zero, a non-negative number of milliseconds.
\<close>

theorem timer_countdown_from_three:
  assumes "\<not> paused t"
  shows "timeUps (secondTick (start True 3 t)) = timeUps t
       \<and> timeUps (secondTick (secondTick (start True 3 t))) = timeUps t
       \<and> timeUps (secondTick (secondTick (secondTick (start True 3 t)))) = timeUps t
       \<and> seconds (secondTick (secondTick (secondTick (start True 3 t)))) = 0
       \<and> \<not> paused (secondTick (secondTick (secondTick (start True 3 t))))
       \<and> timeUps (secondTick (secondTick (secondTick (secondTick (start True 3 t))))) = timeUps t + 1
       \<and> paused (secondTick (secondTick (secondTick (secondTick (start True 3 t)))))
       \<and> secondTick (secondTick (secondTick (secondTick (secondTick (start True 3 t)))))
           = secondTick (secondTick (secondTick (secondTick (start True 3 t))))
       \<and> toString formatDate u = formatDate (int (nat (seconds u)) * 1000) ''mm:ss'' ''en''"
  using assms
  by (simp add: secondTick_def start_def stop_def pause_def toString_def max_def)

theorem timer_countdown_from_three_witness:
  "\<not> paused newTimer
   \<and> seconds (secondTick (secondTick (secondTick (start True 3 newTimer)))) = 0
   \<and> timeUps (secondTick (secondTick (secondTick (start True 3 newTimer)))) = 0
   \<and> timeUps (secondTick (secondTick (secondTick (secondTick (start True 3 newTimer))))) = 1
   \<and> paused (secondTick (secondTick (secondTick (secondTick (start True 3 newTimer)))))"
  using timer_countdown_from_three [of newTimer]
  by (simp add: newTimer_def)

subsection \<open>Cell conversion and \<^verbatim>\<open>die\<close>\<close>

lemma cells_convertClaiming_aux:
  "cells (foldl (\<lambda>g i. if cells g (int i) = Some CLAIMING then setCellDirect v (int i) g else g) f ns) j
   = (if j \<in> int ` set ns \<and> cells f j = Some CLAIMING then Some v else cells f j)"
  by (induction ns arbitrary: f) (auto simp: setCellDirect_def Let_def)

lemma cells_convertClaiming:
  "cells (convertClaiming v f) j
   = (if 0 \<le> j \<and> j < int (cellsLength f) \<and> cells f j = Some CLAIMING then Some v else cells f j)"
proof -
  have "j \<in> int ` set [0..<cellsLength f] \<longleftrightarrow> 0 \<le> j \<and> j < int (cellsLength f)"
    by (auto simp: image_iff intro: bexI [of _ "nat j"])
  then show ?thesis
    unfolding convertClaiming_def cells_convertClaiming_aux by simp
qed

text \<open>
  C4. \<^verbatim>\<open>die()\<close> takes exactly one life, zeroes the player's speed, puts the player on
  the default spawn, turns every \<^verbatim>\<open>CLAIMING\<close> cell of the array into \<^verbatim>\<open>UNCLAIMED\<close>
  and leaves every other cell as it was, and emits exactly one \<^verbatim>\<open>Die\<close>, followed by
  one \<^verbatim>\<open>Lose\<close> exactly when the lives left are below zero.
\<close>

theorem die_effects:
  "lives (player (die L)) = lives (player L) - 1
   \<and> speed (player (die L)) = 0
   \<and> position (player (die L)) = defaultPlayerPosition L
   \<and> cells (field (die L)) j =
       (if 0 \<le> j \<and> j < int (cellsLength (field L)) \<and> cells (field L) j = Some CLAIMING
        then Some UNCLAIMED else cells (field L) j)
   \<and> notifications (die L) =
       notifications L @ (if lives (player L) - 1 < 0 then [Die, Lose] else [Die])"
  by (simp add: die_def lose_def Let_def clearClaiming_def cells_convertClaiming)

subsection \<open>Enemy collision response\<close>

lemma die_enemies_update: "die (L\<lparr>enemies := es\<rparr>) = (die L)\<lparr>enemies := es\<rparr>"
  by (simp add: die_def lose_def Let_def)

text \<open>
  C6. \<^verbatim>\<open>Enemy.onCollision\<close> of the enemy at index \<open>i\<close>: the x component of its
  direction is negated exactly when the collision's x differs from the enemy's floored
  x, the y component likewise with y, its position is unchanged, and the rest of the
  level (player, field, notifications) is what \<^verbatim>\<open>die()\<close> makes of it when the
  collided cell state is \<^verbatim>\<open>CLAIMING\<close> or the collided entity is the player, and is
  untouched otherwise.
\<close>

theorem enemy_onCollision_response:
  assumes "i < length (enemies L)"
  shows "xy_x (direction (enemies (Enemy_onCollision L i c) ! i)) =
           (if col_x c \<noteq> xRounded (position (enemies L ! i))
            then - xy_x (direction (enemies L ! i)) else xy_x (direction (enemies L ! i)))
       \<and> xy_y (direction (enemies (Enemy_onCollision L i c) ! i)) =
           (if col_y c \<noteq> yRounded (position (enemies L ! i))
            then - xy_y (direction (enemies L ! i)) else xy_y (direction (enemies L ! i)))
       \<and> position (enemies (Enemy_onCollision L i c) ! i) = position (enemies L ! i)
       \<and> player (Enemy_onCollision L i c) =
           (if collidedCellState c = Some CLAIMING \<or> collidedEntity c = Some PlayerRef
            then player (die L) else player L)
       \<and> field (Enemy_onCollision L i c) =
           (if collidedCellState c = Some CLAIMING \<or> collidedEntity c = Some PlayerRef
            then field (die L) else field L)
       \<and> notifications (Enemy_onCollision L i c) =
           (if collidedCellState c = Some CLAIMING \<or> collidedEntity c = Some PlayerRef
            then notifications (die L) else notifications L)"
  using assms
  by (simp add: Enemy_onCollision_def Let_def die_enemies_update)

theorem enemy_onCollision_response_witness:
  "0 < length (enemies cornerLevel)
   \<and> direction (enemies (Enemy_onCollision cornerLevel 0
        \<lparr>col_x = 2, col_y = 1, currentCellState = Some UNCLAIMED,
         collidedCellState = None, collidedEntity = Some PlayerRef\<rparr>) ! 0)
       = \<lparr>xy_x = - 1, xy_y = 1\<rparr>
   \<and> position (enemies (Enemy_onCollision cornerLevel 0
        \<lparr>col_x = 2, col_y = 1, currentCellState = Some UNCLAIMED,
         collidedCellState = None, collidedEntity = Some PlayerRef\<rparr>) ! 0)
       = \<lparr>xy_x = 1, xy_y = 1\<rparr>
   \<and> notifications (Enemy_onCollision cornerLevel 0
        \<lparr>col_x = 2, col_y = 1, currentCellState = Some UNCLAIMED,
         collidedCellState = None, collidedEntity = Some PlayerRef\<rparr>)
       = [Die, Lose]"
  using enemy_onCollision_response [of 0 cornerLevel
      "\<lparr>col_x = 2, col_y = 1, currentCellState = Some UNCLAIMED,
        collidedCellState = None, collidedEntity = Some PlayerRef\<rparr>"]
  by (simp add: cornerLevel_def xRounded_def yRounded_def die_def lose_def Let_def XY.equality)

subsection \<open>Probing order\<close>

lemmas probe_evals = probe_def checkCollision_def checkCollisions_def
  checkCollisionForPosition_def orElse_def findEntity_def entities_def differRounded_def
  xRounded_def yRounded_def nextPosition_def getCell_def isOut_def efficientIndex_def
  setCellByXY_def setCellDirect_def newField_def Let_def upt_rec

text \<open>
  C2, as stated, fails. In \<open>cornerLevel\<close> the enemy on (1,1) probes (2,1), (1,2) and
  (2,2). The first candidate holds the player and the second is a claimed cell. Probing
  candidate by candidate would report the player at (2,1); the source reports the
  claimed cell at (1,2).
\<close>

theorem checkCollision_candidate_order_counterexample:
  "probe cornerLevel (EnemyRef 0) (enemies cornerLevel ! 0) 1 =
     Some \<lparr>col_x = 1, col_y = 2, currentCellState = Some UNCLAIMED,
           collidedCellState = Some CLAIMED, collidedEntity = None\<rparr>
   \<and> checkCollision cornerLevel (EnemyRef 0) 1 1 2 2 =
     Some \<lparr>col_x = 1, col_y = 2, currentCellState = Some UNCLAIMED,
           collidedCellState = Some CLAIMED, collidedEntity = None\<rparr>
   \<and> checkCollision_candidateMajor cornerLevel (EnemyRef 0) 1 1 2 2 =
     Some \<lparr>col_x = 2, col_y = 1, currentCellState = Some UNCLAIMED,
           collidedCellState = None, collidedEntity = Some PlayerRef\<rparr>
   \<and> checkCollision cornerLevel (EnemyRef 0) 1 1 2 2
       \<noteq> checkCollision_candidateMajor cornerLevel (EnemyRef 0) 1 1 2 2"
  by (simp add: cornerLevel_def checkCollision_candidateMajor_def probe_evals)

text \<open>
  C2, amended. The cell lookup is tried on the three candidates (nextX, currY),
  (currX, nextY), (nextX, nextY) in that order, and the first candidate whose cell state
  differs from the current cell's gives the collision, whatever entities stand on the
  candidates. Only when no candidate differs is the entity lookup tried on the same
  three candidates in the same order; the first candidate on which it finds an entity
  that is not the mover gives the collision. Otherwise there is none.
\<close>

theorem checkCollision_provider_major:
  "checkCollision L this currX currY nextX nextY =
     (let candidates = [(nextX, currY), (currX, nextY), (nextX, nextY)];
          currCell = getCell (field L) currX currY
      in case find (\<lambda>(a, b). getCell (field L) a b \<noteq> currCell) candidates of
           Some (a, b) \<Rightarrow>
             Some \<lparr>col_x = a, col_y = b, currentCellState = currCell,
                   collidedCellState = getCell (field L) a b, collidedEntity = None\<rparr>
         | None \<Rightarrow>
             (case find (\<lambda>(a, b). findEntity L a b \<noteq> None \<and> findEntity L a b \<noteq> Some this)
                     candidates of
                Some (a, b) \<Rightarrow>
                  Some \<lparr>col_x = a, col_y = b, currentCellState = currCell,
                        collidedCellState = None, collidedEntity = findEntity L a b\<rparr>
              | None \<Rightarrow> None))"
  by (auto simp: checkCollision_def checkCollisions_def checkCollisionForPosition_def
      orElse_def Let_def)

text \<open>
  C9 at a failing input. In \<open>stackedLevel\<close> the enemy stands on (1,1), the cell all
  three candidates of the resting player name. The lookup returns the first entity on
  the cell, which is the player itself, so the entity provider reports nothing at (1,1)
  and the whole probe finds no collision, although an entity other than the mover has
  its floored position on the candidate.
\<close>

theorem entity_lookup_stops_at_mover:
  "xRounded (position (enemies stackedLevel ! 0)) = 1
   \<and> yRounded (position (enemies stackedLevel ! 0)) = 1
   \<and> findEntity stackedLevel 1 1 = Some PlayerRef
   \<and> checkCollisionForPosition (\<lambda>a b. findEntity stackedLevel a b)
        (\<lambda>item. item \<noteq> None \<and> item \<noteq> Some PlayerRef)
        (\<lambda>item c. c\<lparr>collidedEntity := item\<rparr>) (Some UNCLAIMED) 1 1 = None
   \<and> probe stackedLevel PlayerRef (player stackedLevel) 1 = None"
  by (simp add: stackedLevel_def probe_evals)

subsection \<open>Termination of the span fill\<close>

lemma filter_update_False:
  "n < length xs \<Longrightarrow> xs ! n \<Longrightarrow>
   length (filter (\<lambda>b. b) (xs[n := False])) < length (filter (\<lambda>b. b) xs)"
proof (induction xs arbitrary: n)
  case Nil
  then show ?case by simp
next
  case (Cons a xs)
  then show ?case by (cases n) auto
qed

lemma flagsLeft_unmark: "couldClaimAt f i \<Longrightarrow> flagsLeft (unmark f i) < flagsLeft f"
  by (simp add: couldClaimAt_def flagsLeft_def unmark_def filter_update_False)

lemma flagsLeft_scanLeft: "flagsLeft (fst (scanLeft f rowStart lx)) \<le> flagsLeft f"
proof (induction f rowStart lx rule: scanLeft.induct)
  case (1 f rowStart lx)
  show ?case
  proof (cases "rowStart \<le> lx \<and> \<not> shouldStopScan f lx")
    case True
    then have "couldClaimAt f lx" by (simp add: shouldStopScan_def)
    then have "flagsLeft (unmark f lx) < flagsLeft f" by (rule flagsLeft_unmark)
    moreover have "flagsLeft (fst (scanLeft (unmark f lx) rowStart (lx - 1))) \<le> flagsLeft (unmark f lx)"
      using True "1.IH" by simp
    ultimately show ?thesis using True by (subst scanLeft.simps) simp
  next
    case False
    then show ?thesis by (subst scanLeft.simps) auto
  qed
qed

lemma flagsLeft_scanLeft_strict:
  assumes "rowStart \<le> lx" and "\<not> shouldStopScan f lx"
  shows "flagsLeft (fst (scanLeft f rowStart lx)) < flagsLeft f"
proof -
  have "couldClaimAt f lx" using assms by (simp add: shouldStopScan_def)
  then have "flagsLeft (unmark f lx) < flagsLeft f" by (rule flagsLeft_unmark)
  moreover have "flagsLeft (fst (scanLeft (unmark f lx) rowStart (lx - 1))) \<le> flagsLeft (unmark f lx)"
    by (rule flagsLeft_scanLeft)
  ultimately show ?thesis using assms by (subst scanLeft.simps) simp
qed

lemma flagsLeft_scanRight: "flagsLeft (fst (scanRight f rowEnd rx)) \<le> flagsLeft f"
proof (induction f rowEnd rx rule: scanRight.induct)
  case (1 f rowEnd rx)
  show ?case
  proof (cases "rx \<le> rowEnd \<and> \<not> shouldStopScan f rx")
    case True
    then have "couldClaimAt f rx" by (simp add: shouldStopScan_def)
    then have "flagsLeft (unmark f rx) < flagsLeft f" by (rule flagsLeft_unmark)
    moreover have "flagsLeft (fst (scanRight (unmark f rx) rowEnd (rx + 1))) \<le> flagsLeft (unmark f rx)"
      using True "1.IH" by simp
    ultimately show ?thesis using True by (subst scanRight.simps) simp
  next
    case False
    then show ?thesis by (subst scanRight.simps) auto
  qed
qed

lemma rowStart_le:
  assumes "0 < width f"
  shows "efficientIndex f 0 (i div int (width f)) \<le> i"
proof -
  have "i div int (width f) * int (width f) \<le> i"
    using assms pos_mod_sign [of "int (width f)" i] div_mult_mod_eq [of i "int (width f)"]
    by linarith
  then show ?thesis by (simp add: efficientIndex_def)
qed

lemma flagsLeft_scanSpan:
  assumes "0 < width f" and "\<not> shouldStopScan f i"
  shows "flagsLeft (fst (scanSpan f i stack)) < flagsLeft f"
proof -
  let ?rowStart = "efficientIndex f 0 (i div int (width f))"
  let ?rowEnd = "efficientIndex f (int (width f) - 1) (i div int (width f))"
  have "flagsLeft (fst (scanLeft f ?rowStart i)) < flagsLeft f"
    using assms rowStart_le by (intro flagsLeft_scanLeft_strict) auto
  moreover have "flagsLeft (fst (scanRight (fst (scanLeft f ?rowStart i)) ?rowEnd (i + 1)))
      \<le> flagsLeft (fst (scanLeft f ?rowStart i))"
    by (rule flagsLeft_scanRight)
  ultimately show ?thesis
    using assms by (simp add: scanSpan_def Let_def split_beta)
qed

text \<open>
  Every pass of the loop either pops a boundary, or pops an index of a field of width
  zero, or unmarks at least the popped cell: the pair (flags left, stack length) goes
  down lexicographically.
\<close>

lemma scanLoop_returns: "\<exists>g. scanLoop f stack = Some g"
proof (induction "flagsLeft f" arbitrary: f stack rule: less_induct)
  case less
  show ?case
  proof (induction stack)
    case Nil
    show ?case by (simp add: scanLoop.simps)
  next
    case (Cons i rest)
    show ?case
    proof (cases "shouldStopScan f i")
      case True
      then show ?thesis using Cons by (subst scanLoop.simps) simp
    next
      case notStopped: False
      show ?thesis
      proof (cases "width f = 0")
        case True
        then have "scanSpan f i rest = (f, rest)" by (simp add: scanSpan_def)
        then show ?thesis using Cons notStopped by (subst scanLoop.simps) simp
      next
        case False
        then have "flagsLeft (fst (scanSpan f i rest)) < flagsLeft f"
          using notStopped by (intro flagsLeft_scanSpan) auto
        then have "\<exists>g. scanLoop (fst (scanSpan f i rest)) (snd (scanSpan f i rest)) = Some g"
          by (rule less.hyps)
        then show ?thesis using notStopped by (subst scanLoop.simps) simp
      qed
    qed
  qed
qed

lemma startScan_returns: "\<exists>g. startScan f a b = Some g"
  by (simp add: startScan_def Let_def scanLoop_returns)

lemma startScans_returns: "\<exists>g. startScans f ps = Some g"
proof (induction ps arbitrary: f)
  case Nil
  show ?case by simp
next
  case (Cons p ps)
  obtain g where "startScan f (xy_x p) (xy_y p) = Some g"
    using startScan_returns by blast
  then show ?case using Cons by simp
qed

lemma claim_returns: "\<exists>g. claim f ps = Some g"
proof -
  let ?sealed = "convertClaiming CLAIMED f"
  obtain s where "startScans (?sealed\<lparr>couldClaim := replicate (length (couldClaim ?sealed)) True\<rparr>) ps = Some s"
    using startScans_returns by blast
  then show ?thesis by (simp add: claim_def Let_def)
qed

text \<open>
  C10. The \<^verbatim>\<open>while\<close> loop of the span fill returns from every field and every stack,
  each \<^verbatim>\<open>startScan\<close> returns, and so does \<^verbatim>\<open>claim\<close> for every field and every list
  of enemy positions.
\<close>

theorem claim_terminates:
  "(\<exists>g. scanLoop f stack = Some g)
   \<and> (\<exists>g. startScan f startX startY = Some g)
   \<and> (\<exists>g. claim f enemyPositions = Some g)"
  using scanLoop_returns startScan_returns claim_returns by blast

subsection \<open>Win and lose notifications over a sequence of calls\<close>

lemma Level_claim_returns: "\<exists>L1. Level_claim L = Some L1"
proof -
  obtain g where "claim (field L) (map position (enemies L)) = Some g"
    using claim_returns by blast
  then show ?thesis by (simp add: Level_claim_def Let_def)
qed

lemma emits_refl: "emits L L k m"
  by (simp add: emits_def)

lemma emits_trans:
  assumes "emits L L1 k1 m1" and "emits L1 L2 k2 m2"
  shows "emits L L2 (k1 + k2) (m1 + m2)"
proof -
  obtain a where a: "notifications L1 = notifications L @ a"
    "count_list a Win \<le> k1" "count_list a Lose \<le> m1" "length (enemies L1) = length (enemies L)"
    using assms(1) unfolding emits_def by blast
  obtain b where b: "notifications L2 = notifications L1 @ b"
    "count_list b Win \<le> k2" "count_list b Lose \<le> m2" "length (enemies L2) = length (enemies L1)"
    using assms(2) unfolding emits_def by blast
  have "notifications L2 = notifications L @ (a @ b)" using a(1) b(1) by simp
  moreover have "count_list (a @ b) Win \<le> k1 + k2" using a(2) b(2) by simp
  moreover have "count_list (a @ b) Lose \<le> m1 + m2" using a(3) b(3) by simp
  ultimately show ?thesis unfolding emits_def using a(4) b(4) by auto
qed

lemma emits_mono: "emits L L' k m \<Longrightarrow> k \<le> k' \<Longrightarrow> m \<le> m' \<Longrightarrow> emits L L' k' m'"
  unfolding emits_def by (meson le_trans)

lemma emits_frame:
  assumes "notifications L' = notifications L" and "length (enemies L') = length (enemies L)"
  shows "emits L L' 0 0"
  using assms by (simp add: emits_def)

lemma emits_die: "emits L (die L) 0 1"
  by (simp add: emits_def die_def lose_def Let_def)

lemma emits_Level_claim:
  assumes "Level_claim L = Some L1"
  shows "emits L L1 1 0"
  using assms
  by (auto simp: emits_def Level_claim_def win_def Let_def split: option.splits if_splits)

lemma Player_onCollision_returns: "\<exists>L1. Player_onCollision L c = Some L1"
proof -
  obtain L3 where "Level_claim
      (L\<lparr>field := setCellByXY CLAIMING (xRounded (position (player L)))
                     (yRounded (position (player L))) (field L),
         player := (player L)\<lparr>position := \<lparr>xy_x = of_int (col_x c), xy_y = of_int (col_y c)\<rparr>\<rparr>\<rparr>)
      = Some L3"
    using Level_claim_returns by blast
  then show ?thesis by (simp add: Player_onCollision_def Let_def)
qed

lemma emits_Player_onCollision:
  assumes "Player_onCollision L c = Some L1"
  shows "emits L L1 1 1"
proof -
  consider (out) "collidedCellState c = Some OUT_OF_BOUNDS"
    | (unclaimed) "collidedCellState c = Some UNCLAIMED"
    | (claimed) "collidedCellState c = Some CLAIMED"
    | (claiming) "collidedCellState c = Some CLAIMING"
    | (none) "collidedCellState c = None"
    by (cases "collidedCellState c") (auto intro: CellState.exhaust)
  then show ?thesis
  proof cases
    case out
    then have "L1 = L\<lparr>player := (player L)\<lparr>speed := 0\<rparr>\<rparr>"
      using assms by (simp add: Player_onCollision_def Let_def)
    then show ?thesis by (simp add: emits_def)
  next
    case unclaimed
    then have "notifications L1 = notifications L \<and> enemies L1 = enemies L"
      using assms by (auto simp: Player_onCollision_def Let_def)
    then show ?thesis by (simp add: emits_def)
  next
    case claimed
    let ?L2 = "L\<lparr>field := setCellByXY CLAIMING (xRounded (position (player L)))
                     (yRounded (position (player L))) (field L),
         player := (player L)\<lparr>position := \<lparr>xy_x = of_int (col_x c), xy_y = of_int (col_y c)\<rparr>\<rparr>\<rparr>"
    obtain L3 where L3: "Level_claim ?L2 = Some L3"
      and L1: "L1 = L3\<lparr>player := (player L3)\<lparr>claiming := False\<rparr>\<rparr>"
      using assms claimed by (auto simp: Player_onCollision_def Let_def split: option.splits)
    have "emits ?L2 L3 1 0" using L3 by (rule emits_Level_claim)
    then have "emits L L1 1 0" unfolding emits_def L1 by simp
    then show ?thesis by (rule emits_mono) simp_all
  next
    case claiming
    then have L1: "L1 = die (L\<lparr>player := (player L)\<lparr>claiming := False\<rparr>\<rparr>)"
      using assms by (simp add: Player_onCollision_def Let_def)
    have "emits (L\<lparr>player := (player L)\<lparr>claiming := False\<rparr>\<rparr>) L1 0 1"
      unfolding L1 by (rule emits_die)
    then have "emits L L1 0 1" unfolding emits_def by simp
    then show ?thesis by (rule emits_mono) simp_all
  next
    case none
    then have "L1 = L" using assms by (simp add: Player_onCollision_def Let_def)
    then show ?thesis by (simp add: emits_refl)
  qed
qed

lemma Player_update_returns: "\<exists>L1. Player_update delta L = Some L1"
proof (cases "probe L PlayerRef (player L) delta")
  case None
  then show ?thesis by (simp add: Player_update_def Let_def)
next
  case (Some c)
  obtain L1 where "Player_onCollision L c = Some L1"
    using Player_onCollision_returns by blast
  then show ?thesis using Some by (simp add: Player_update_def Let_def)
qed

lemma emits_Player_update:
  assumes "Player_update delta L = Some L1"
  shows "emits L L1 1 1"
proof -
  obtain L0 where L0: "(case probe L PlayerRef (player L) delta of
        Some c \<Rightarrow> Player_onCollision L c
      | None \<Rightarrow> Some (L\<lparr>player := (player L)\<lparr>position := nextPosition (player L) delta\<rparr>\<rparr>)) = Some L0"
    and L1: "notifications L1 = notifications L0" "enemies L1 = enemies L0"
    using assms by (auto simp: Player_update_def Let_def split: option.splits if_splits)
  have "emits L L0 1 1"
  proof (cases "probe L PlayerRef (player L) delta")
    case None
    then have "L0 = L\<lparr>player := (player L)\<lparr>position := nextPosition (player L) delta\<rparr>\<rparr>"
      using L0 by simp
    then show ?thesis by (simp add: emits_def)
  next
    case (Some c)
    then have "Player_onCollision L c = Some L0" using L0 by simp
    then show ?thesis by (rule emits_Player_onCollision)
  qed
  then show ?thesis unfolding emits_def using L1 by simp
qed

lemma emits_Enemy_onCollision: "emits L (Enemy_onCollision L i c) 0 1"
proof -
  let ?L1 = "L\<lparr>enemies := (enemies L)[i := (enemies L ! i)\<lparr>direction :=
      (if col_y c \<noteq> yRounded (position (enemies L ! i))
       then (if col_x c \<noteq> xRounded (position (enemies L ! i))
             then (direction (enemies L ! i))\<lparr>xy_x := xy_x (direction (enemies L ! i)) * (- 1)\<rparr>
             else direction (enemies L ! i))
            \<lparr>xy_y := xy_y (if col_x c \<noteq> xRounded (position (enemies L ! i))
                           then (direction (enemies L ! i))\<lparr>xy_x := xy_x (direction (enemies L ! i)) * (- 1)\<rparr>
                           else direction (enemies L ! i)) * (- 1)\<rparr>
       else (if col_x c \<noteq> xRounded (position (enemies L ! i))
             then (direction (enemies L ! i))\<lparr>xy_x := xy_x (direction (enemies L ! i)) * (- 1)\<rparr>
             else direction (enemies L ! i)))\<rparr>]\<rparr>"
  have eq: "Enemy_onCollision L i c =
      (if collidedCellState c = Some CLAIMING \<or> collidedEntity c = Some PlayerRef
       then die ?L1 else ?L1)"
    by (simp add: Enemy_onCollision_def Let_def)
  have frame: "emits L ?L1 0 0" by (simp add: emits_def)
  have "emits ?L1 (die ?L1) 0 1" by (rule emits_die)
  then have "emits L (die ?L1) 0 1" using emits_trans [OF frame] by simp
  moreover have "emits L ?L1 0 1" using frame by (rule emits_mono) simp_all
  ultimately show ?thesis unfolding eq by simp
qed

lemma emits_Destroyer_onCollision: "emits L (Destroyer_onCollision L i c) 0 1"
  using emits_Enemy_onCollision [of L i c]
  by (simp add: Destroyer_onCollision_def Let_def emits_def)

lemma emits_Enemy_update: "emits L (Enemy_update delta L i) 0 1"
proof (cases "probe L (EnemyRef i) (enemies L ! i) delta")
  case None
  then show ?thesis by (simp add: Enemy_update_def Let_def emits_def)
next
  case (Some c)
  then show ?thesis
    using emits_Enemy_onCollision [of L i c] emits_Destroyer_onCollision [of L i c]
    by (simp add: Enemy_update_def Let_def)
qed

lemma emits_Enemy_updates: "emits L (foldl (Enemy_update delta) L ns) 0 (length ns)"
proof (induction ns arbitrary: L)
  case Nil
  show ?case by (simp add: emits_refl)
next
  case (Cons n ns)
  have "emits L (Enemy_update delta L n) 0 1" by (rule emits_Enemy_update)
  moreover have "emits (Enemy_update delta L n) (foldl (Enemy_update delta) (Enemy_update delta L n) ns)
      0 (length ns)"
    by (rule Cons.IH)
  ultimately have "emits L (foldl (Enemy_update delta) (Enemy_update delta L n) ns) (0 + 0) (1 + length ns)"
    by (rule emits_trans)
  then show ?case by simp
qed

lemma Game_update_emits:
  "\<exists>L1. Game_update delta L = Some L1 \<and> emits L L1 1 (1 + length (enemies L))"
proof -
  obtain L0 where L0: "Player_update delta L = Some L0"
    using Player_update_returns by blast
  then have "emits L L0 1 1" by (rule emits_Player_update)
  moreover have "emits L0 (foldl (Enemy_update delta) L0 [0..<length (enemies L)])
      0 (length [0..<length (enemies L)])"
    by (rule emits_Enemy_updates)
  ultimately have "emits L (foldl (Enemy_update delta) L0 [0..<length (enemies L)])
      (1 + 0) (1 + length [0..<length (enemies L)])"
    by (rule emits_trans)
  then show ?thesis using L0 by (simp add: Game_update_def)
qed

text \<open>
  C5, as stated, fails: the level keeps no record of having lost. On a player with no
  life to spare, two calls of \<^verbatim>\<open>die()\<close> emit \<^verbatim>\<open>Lose\<close> twice.
\<close>

theorem lose_fires_twice_counterexample:
  "runCalls stackedLevel [CallDie, CallDie] = Some (die (die stackedLevel))
   \<and> notifications (die (die stackedLevel)) = [Die, Lose, Die, Lose]
   \<and> \<not> count_list (notifications (die (die stackedLevel))) Lose \<le> 1"
  by (simp add: stackedLevel_def die_def lose_def Let_def)

text \<open>
  C5, amended. Every sequence of \<^verbatim>\<open>die()\<close> calls, \<^verbatim>\<open>claim()\<close> calls and ticks
  returns, and what it adds to the notifications holds at most one \<^verbatim>\<open>Win\<close> per
  \<^verbatim>\<open>claim()\<close> call and per tick, and at most one \<^verbatim>\<open>Lose\<close> per \<^verbatim>\<open>die()\<close> call
  and, in each tick, per entity of the level (the player and every enemy).
\<close>

theorem notifications_per_call:
  "\<exists>L'. runCalls L cs = Some L'
     \<and> emits L L' (count_list cs CallClaim + count_list cs CallTick)
          (count_list cs CallDie + count_list cs CallTick * (1 + length (enemies L)))"
proof (induction cs arbitrary: L)
  case Nil
  show ?case by (simp add: emits_refl)
next
  case (Cons c cs)
  have step: "\<exists>L1. runCalls L [c] = Some L1
      \<and> emits L L1 (count_list [c] CallClaim + count_list [c] CallTick)
           (count_list [c] CallDie + count_list [c] CallTick * (1 + length (enemies L)))"
  proof (cases c)
    case CallDie
    then show ?thesis using emits_die [of L] by simp
  next
    case CallClaim
    obtain L1 where "Level_claim L = Some L1" using Level_claim_returns by blast
    then show ?thesis using CallClaim emits_Level_claim [of L L1] by simp
  next
    case CallTick
    obtain L1 where "Game_update 1 L = Some L1" and "emits L L1 1 (1 + length (enemies L))"
      using Game_update_emits by blast
    then show ?thesis using CallTick by simp
  qed
  then obtain L1 where L1: "runCalls L [c] = Some L1"
    and e1: "emits L L1 (count_list [c] CallClaim + count_list [c] CallTick)
           (count_list [c] CallDie + count_list [c] CallTick * (1 + length (enemies L)))"
    by blast
  have same: "length (enemies L1) = length (enemies L)" using e1 by (auto simp: emits_def)
  obtain L' where L': "runCalls L1 cs = Some L'"
    and e2: "emits L1 L' (count_list cs CallClaim + count_list cs CallTick)
          (count_list cs CallDie + count_list cs CallTick * (1 + length (enemies L)))"
    using Cons [of L1] same by auto
  have run: "runCalls L (c # cs) = Some L'"
    using L1 L' by (cases c) (auto split: option.splits)
  have "emits L L'
      ((count_list [c] CallClaim + count_list [c] CallTick) + (count_list cs CallClaim + count_list cs CallTick))
      ((count_list [c] CallDie + count_list [c] CallTick * (1 + length (enemies L)))
        + (count_list cs CallDie + count_list cs CallTick * (1 + length (enemies L))))"
    using e1 e2 by (rule emits_trans)
  then have "emits L L' (count_list (c # cs) CallClaim + count_list (c # cs) CallTick)
      (count_list (c # cs) CallDie + count_list (c # cs) CallTick * (1 + length (enemies L)))"
    by (rule emits_mono) (auto simp: algebra_simps)
  then show ?case using run by blast
qed

subsection \<open>A rule for the span-fill loop\<close>

text \<open>
  An invariant of the field and the stack that both kinds of pass keep holds, with an
  empty stack, of the field the loop returns.
\<close>

lemma scanLoop_rule:
  assumes init: "I f stack"
    and pop: "\<And>f i rest. I f (i # rest) \<Longrightarrow> shouldStopScan f i \<Longrightarrow> I f rest"
    and span: "\<And>f i rest. I f (i # rest) \<Longrightarrow> \<not> shouldStopScan f i \<Longrightarrow>
                 I (fst (scanSpan f i rest)) (snd (scanSpan f i rest))"
  shows "\<exists>g. scanLoop f stack = Some g \<and> I g []"
  using init
proof (induction "flagsLeft f" arbitrary: f stack rule: less_induct)
  case less
  from less.prems show ?case
  proof (induction stack)
    case Nil
    then show ?case by (simp add: scanLoop.simps)
  next
    case (Cons i rest)
    show ?case
    proof (cases "shouldStopScan f i")
      case True
      then have "I f rest" using Cons.prems pop by blast
      then have "\<exists>g. scanLoop f rest = Some g \<and> I g []" by (rule Cons.IH)
      then show ?thesis using True by (subst scanLoop.simps) simp
    next
      case notStopped: False
      have next_inv: "I (fst (scanSpan f i rest)) (snd (scanSpan f i rest))"
        using Cons.prems notStopped span by blast
      show ?thesis
      proof (cases "width f = 0")
        case True
        then have same: "scanSpan f i rest = (f, rest)" by (simp add: scanSpan_def)
        then have "I f rest" using next_inv by simp
        then have "\<exists>g. scanLoop f rest = Some g \<and> I g []" by (rule Cons.IH)
        then show ?thesis using notStopped same by (subst scanLoop.simps) simp
      next
        case False
        then have "flagsLeft (fst (scanSpan f i rest)) < flagsLeft f"
          using notStopped by (intro flagsLeft_scanSpan) auto
        then have "\<exists>g. scanLoop (fst (scanSpan f i rest)) (snd (scanSpan f i rest)) = Some g \<and> I g []"
          using next_inv by (rule less.hyps)
        then show ?thesis using notStopped by (subst scanLoop.simps) simp
      qed
    qed
  qed
qed

subsection \<open>The scan changes nothing but the flags\<close>

lemma sameButFlags_refl: "sameButFlags f f"
  by (simp add: sameButFlags_def)

lemma sameButFlags_trans: "sameButFlags f g \<Longrightarrow> sameButFlags g h \<Longrightarrow> sameButFlags f h"
  by (cases f; cases g; cases h) (simp add: sameButFlags_def)

lemma sameButFlags_unmark: "sameButFlags f (unmark f i)"
  by (simp add: sameButFlags_def unmark_def)

lemma sameButFlags_scanLeft: "sameButFlags f (fst (scanLeft f rowStart lx))"
proof (induction f rowStart lx rule: scanLeft.induct)
  case (1 f rowStart lx)
  show ?case
  proof (cases "rowStart \<le> lx \<and> \<not> shouldStopScan f lx")
    case True
    then have "sameButFlags (unmark f lx) (fst (scanLeft (unmark f lx) rowStart (lx - 1)))"
      using "1.IH" by simp
    then have "sameButFlags f (fst (scanLeft (unmark f lx) rowStart (lx - 1)))"
      using sameButFlags_unmark sameButFlags_trans by blast
    then show ?thesis using True by (subst scanLeft.simps) simp
  next
    case False
    then show ?thesis by (subst scanLeft.simps) (auto simp: sameButFlags_refl)
  qed
qed

lemma sameButFlags_scanRight: "sameButFlags f (fst (scanRight f rowEnd rx))"
proof (induction f rowEnd rx rule: scanRight.induct)
  case (1 f rowEnd rx)
  show ?case
  proof (cases "rx \<le> rowEnd \<and> \<not> shouldStopScan f rx")
    case True
    then have "sameButFlags (unmark f rx) (fst (scanRight (unmark f rx) rowEnd (rx + 1)))"
      using "1.IH" by simp
    then have "sameButFlags f (fst (scanRight (unmark f rx) rowEnd (rx + 1)))"
      using sameButFlags_unmark sameButFlags_trans by blast
    then show ?thesis using True by (subst scanRight.simps) simp
  next
    case False
    then show ?thesis by (subst scanRight.simps) (auto simp: sameButFlags_refl)
  qed
qed

lemma sameButFlags_scanSpan: "sameButFlags f (fst (scanSpan f i stack))"
proof (cases "width f = 0")
  case True
  then show ?thesis by (simp add: scanSpan_def sameButFlags_refl)
next
  case False
  let ?rowStart = "efficientIndex f 0 (i div int (width f))"
  let ?rowEnd = "efficientIndex f (int (width f) - 1) (i div int (width f))"
  have "sameButFlags f (fst (scanLeft f ?rowStart i))"
    by (rule sameButFlags_scanLeft)
  moreover have "sameButFlags (fst (scanLeft f ?rowStart i))
      (fst (scanRight (fst (scanLeft f ?rowStart i)) ?rowEnd (i + 1)))"
    by (rule sameButFlags_scanRight)
  ultimately have "sameButFlags f (fst (scanRight (fst (scanLeft f ?rowStart i)) ?rowEnd (i + 1)))"
    by (rule sameButFlags_trans)
  then show ?thesis using False by (simp add: scanSpan_def Let_def split_beta)
qed

lemma sameButFlags_scanLoop:
  assumes "scanLoop f stack = Some g"
  shows "sameButFlags f g"
proof -
  have "\<exists>h. scanLoop f stack = Some h \<and> (\<lambda>k (st :: int list). sameButFlags f k) h []"
  proof (rule scanLoop_rule [where I = "\<lambda>k st. sameButFlags f k"])
    show "sameButFlags f f" by (rule sameButFlags_refl)
  next
    fix k :: XonixField and i :: int and rest :: "int list"
    assume "sameButFlags f k"
    then show "sameButFlags f k" .
  next
    fix k :: XonixField and i :: int and rest :: "int list"
    assume "sameButFlags f k"
    then show "sameButFlags f (fst (scanSpan k i rest))"
      using sameButFlags_scanSpan sameButFlags_trans by blast
  qed
  then show ?thesis using assms by simp
qed

lemma sameButFlags_startScan:
  assumes "startScan f a b = Some g"
  shows "sameButFlags f g"
  using assms
  by (auto simp: startScan_def Let_def sameButFlags_refl sameButFlags_scanLoop split: if_splits)

lemma sameButFlags_startScans:
  assumes "startScans f ps = Some g"
  shows "sameButFlags f g"
  using assms
proof (induction ps arbitrary: f)
  case Nil
  then show ?case by (simp add: sameButFlags_refl)
next
  case (Cons p ps)
  then obtain h where h: "startScan f (xy_x p) (xy_y p) = Some h" and rest: "startScans h ps = Some g"
    by (auto split: option.splits)
  have "sameButFlags f h" using h by (rule sameButFlags_startScan)
  moreover have "sameButFlags h g" using rest by (rule Cons.IH)
  ultimately show ?case by (rule sameButFlags_trans)
qed

subsection \<open>Occupancy counts\<close>

lemma filter_length_point_update:
  assumes "k < n" and "\<And>j. j \<noteq> k \<Longrightarrow> Q j = P j"
  shows "int (length (filter Q [0..<n])) =
         int (length (filter P [0..<n])) - (if P k then 1 else 0) + (if Q k then 1 else 0)"
proof -
  have "[0..<k + (n - k)] = [0..<k] @ [k..<k + (n - k)]"
    by (rule upt_add_eq_append) simp
  then have split: "[0..<n] = [0..<k] @ k # [Suc k..<n]"
    using assms(1) by (simp add: upt_conv_Cons)
  have left: "filter Q [0..<k] = filter P [0..<k]"
    using assms(2) by (intro filter_cong) auto
  have right: "filter Q [Suc k..<n] = filter P [Suc k..<n]"
    using assms(2) by (intro filter_cong) auto
  show ?thesis
    by (subst (1 2) split) (simp add: left right)
qed

lemma cells_setCellDirect:
  "cells (setCellDirect v i f) j = (if j = i then Some v else cells f j)"
  by (simp add: setCellDirect_def Let_def)

lemma cellsLength_setCellDirect:
  "0 \<le> i \<Longrightarrow> nat i < cellsLength f \<Longrightarrow> cellsLength (setCellDirect v i f) = cellsLength f"
  by (simp add: setCellDirect_def Let_def)

lemma cellCount_setCellDirect:
  "cellCount (setCellDirect v i f) s =
   cellCount f s - (if cells f i = Some s then 1 else 0) + (if v = s then 1 else 0)"
  by (auto simp: setCellDirect_def Let_def split: option.splits)

lemma frame_setCellDirect:
  "width (setCellDirect v i f) = width f" "height (setCellDirect v i f) = height f"
  "couldClaim (setCellDirect v i f) = couldClaim f"
  by (simp_all add: setCellDirect_def Let_def)

lemma countCells_setCellDirect:
  assumes "0 \<le> i" and "nat i < cellsLength f"
  shows "countCells (setCellDirect v i f) s =
         countCells f s - (if cells f i = Some s then 1 else 0) + (if v = s then 1 else 0)"
proof -
  have "int (length (filter (\<lambda>j. cells (setCellDirect v i f) (int j) = Some s) [0..<cellsLength f])) =
        int (length (filter (\<lambda>j. cells f (int j) = Some s) [0..<cellsLength f]))
          - (if cells f (int (nat i)) = Some s then 1 else 0)
          + (if cells (setCellDirect v i f) (int (nat i)) = Some s then 1 else 0)"
  proof (rule filter_length_point_update)
    show "nat i < cellsLength f" by (rule assms(2))
  next
    fix j :: nat
    assume "j \<noteq> nat i"
    then have "int j \<noteq> i" using assms(1) by auto
    then show "(cells (setCellDirect v i f) (int j) = Some s) = (cells f (int j) = Some s)"
      by (simp add: cells_setCellDirect)
  qed
  then show ?thesis
    using assms by (simp add: countCells_def cellsLength_setCellDirect cells_setCellDirect)
qed

lemma fieldInv_setCellDirect:
  assumes "fieldInv f" and "0 \<le> i" and "nat i < cellsLength f" and "v \<noteq> OUT_OF_BOUNDS"
  shows "fieldInv (setCellDirect v i f)"
proof -
  have counts: "\<And>s. cellCount f s = countCells f s"
    using assms(1) by (simp add: fieldInv_def)
  have "storedState (Some v)"
    using assms(4) by (cases v) (simp_all add: storedState_def)
  then have "\<forall>j < cellsLength f. storedState (cells (setCellDirect v i f) (int j))"
    using assms(1) by (simp add: fieldInv_def cells_setCellDirect)
  then show ?thesis
    using assms(1-3)
    by (simp add: fieldInv_def cellsLength_setCellDirect frame_setCellDirect
        cellCount_setCellDirect countCells_setCellDirect)
qed

lemma fieldInv_sameButFlags: "fieldInv f \<Longrightarrow> sameButFlags f g \<Longrightarrow> fieldInv g"
  by (cases f; cases g) (auto simp: fieldInv_def sameButFlags_def countCells_def)

lemma fieldInv_conditional_writes:
  assumes "fieldInv f" and "\<forall>n \<in> set ns. n < cellsLength f" and "v \<noteq> OUT_OF_BOUNDS"
  shows "fieldInv (foldl (\<lambda>g n. if c g n then setCellDirect v (int n) g else g) f ns)"
  using assms(1,2)
proof (induction ns arbitrary: f)
  case Nil
  then show ?case by simp
next
  case (Cons n ns)
  let ?g = "if c f n then setCellDirect v (int n) f else f"
  have "fieldInv ?g"
    using Cons.prems assms(3) by (simp add: fieldInv_setCellDirect)
  moreover have "cellsLength ?g = cellsLength f"
    using Cons.prems by (simp add: cellsLength_setCellDirect)
  ultimately show ?case using Cons.IH [of ?g] Cons.prems by simp
qed

lemma fieldInv_convertClaiming:
  assumes "fieldInv f" and "v \<noteq> OUT_OF_BOUNDS"
  shows "fieldInv (convertClaiming v f)"
  unfolding convertClaiming_def
  using assms by (intro fieldInv_conditional_writes) auto

lemma fieldInv_claimMarked:
  assumes "fieldInv f"
  shows "fieldInv (claimMarked f)"
  unfolding claimMarked_def
  using assms by (intro fieldInv_conditional_writes) (auto simp: fieldInv_def)

lemma fieldInv_claim:
  assumes "fieldInv f" and "claim f ps = Some g"
  shows "fieldInv g"
proof -
  let ?sealed = "convertClaiming CLAIMED f"
  let ?masked = "?sealed\<lparr>couldClaim := replicate (length (couldClaim ?sealed)) True\<rparr>"
  obtain s where s: "startScans ?masked ps = Some s" and g: "g = claimMarked s"
    using assms(2) by (auto simp: claim_def Let_def split: option.splits)
  have "fieldInv ?sealed" using assms(1) by (simp add: fieldInv_convertClaiming)
  moreover have "sameButFlags ?sealed ?masked" by (simp add: sameButFlags_def)
  ultimately have "fieldInv ?masked" by (rule fieldInv_sameButFlags)
  moreover have "sameButFlags ?masked s" using s by (rule sameButFlags_startScans)
  ultimately have "fieldInv s" by (rule fieldInv_sameButFlags)
  then show ?thesis using g by (simp add: fieldInv_claimMarked)
qed

lemma index_in_bounds:
  assumes "\<not> isOut f a b"
  shows "0 \<le> efficientIndex f a b \<and> nat (efficientIndex f a b) < width f * height f"
proof -
  from assms have a: "0 \<le> a" "a < int (width f)" and b: "0 \<le> b" "b + 1 \<le> int (height f)"
    by (auto simp: isOut_def)
  have "(b + 1) * int (width f) \<le> int (height f) * int (width f)"
    using b(2) by (intro mult_right_mono) auto
  then have "b * int (width f) + a < int (width f) * int (height f)"
    using a(2) by (simp add: algebra_simps)
  moreover have "0 \<le> b * int (width f) + a" using a(1) b(1) by simp
  ultimately show ?thesis
    by (simp add: efficientIndex_def nat_less_iff)
qed

lemma newField_steps:
  "k \<le> w * h \<Longrightarrow>
   foldl (\<lambda>f i. setCellDirect UNCLAIMED (int i) f)
     \<lparr>width = w, height = h, cells = Map.empty, cellsLength = w * h,
      couldClaim = replicate (w * h) False, cellCount = (\<lambda>_. 0)\<rparr> [0..<k]
   = \<lparr>width = w, height = h,
      cells = (\<lambda>i. if 0 \<le> i \<and> nat i < k then Some UNCLAIMED else None),
      cellsLength = w * h, couldClaim = replicate (w * h) False,
      cellCount = (\<lambda>_. 0)(UNCLAIMED := int k)\<rparr>"
proof (induction k)
  case 0
  show ?case by (simp add: fun_eq_iff)
next
  case (Suc k)
  then show ?case by (auto simp: setCellDirect_def Let_def fun_eq_iff)
qed

lemma filter_const_length: "length (filter (\<lambda>_. c) xs) = (if c then length xs else 0)"
  by (induction xs) auto

lemma fieldInv_newField: "fieldInv (newField w h)"
proof -
  let ?g = "\<lparr>width = w, height = h,
      cells = (\<lambda>i. if 0 \<le> i \<and> nat i < w * h then Some UNCLAIMED else None),
      cellsLength = w * h, couldClaim = replicate (w * h) False,
      cellCount = (\<lambda>_. 0)(UNCLAIMED := int (w * h))\<rparr>"
  have eq: "newField w h = ?g"
    unfolding newField_def by (rule newField_steps) simp
  have "filter (\<lambda>i. cells ?g (int i) = Some s) [0..<w * h] = filter (\<lambda>_. UNCLAIMED = s) [0..<w * h]" for s
    by (rule filter_cong) auto
  then have "countCells ?g s = (if UNCLAIMED = s then int (w * h) else 0)" for s
    by (simp add: countCells_def filter_const_length del: of_nat_mult)
  then have "\<forall>s. cellCount ?g s = countCells ?g s"
    by (simp del: of_nat_mult)
  moreover have "\<forall>i < cellsLength ?g. storedState (cells ?g (int i))"
    by (simp add: storedState_def)
  ultimately have "fieldInv ?g"
    unfolding fieldInv_def by simp
  then show ?thesis by (simp only: eq)
qed

lemma fieldInv_reachable: "reachableField f \<Longrightarrow> fieldInv f"
proof (induction rule: reachableField.induct)
  case (constructed w h)
  show ?case by (rule fieldInv_newField)
next
  case (cellSet f a b v)
  have "0 \<le> efficientIndex f a b \<and> nat (efficientIndex f a b) < cellsLength f"
    using index_in_bounds [OF cellSet.hyps(2)] cellSet.IH by (simp add: fieldInv_def)
  then show ?case
    unfolding setCellByXY_def using cellSet by (intro fieldInv_setCellDirect) auto
next
  case (claimed f ps g)
  then show ?case using fieldInv_claim by blast
next
  case (cleared f)
  then show ?case by (simp add: clearClaiming_def fieldInv_convertClaiming)
qed

lemma stored_partition:
  assumes "\<forall>n \<in> set ns. storedState (c n)"
  shows "length (filter (\<lambda>n. c n = Some CLAIMED) ns) + length (filter (\<lambda>n. c n = Some UNCLAIMED) ns)
         + length (filter (\<lambda>n. c n = Some CLAIMING) ns) = length ns"
  using assms by (induction ns) (auto simp: storedState_def)

text \<open>
  C8, as stated, fails on the field of no cells, which \<^verbatim>\<open>XonixLevel.empty()\<close> and the
  builder construct: its ratio is \<^verbatim>\<open>0 / 0\<close>, which is \<^verbatim>\<open>NaN\<close> and lies in no interval.
\<close>

theorem claimedRatio_empty_field_counterexample:
  "reachableField (newField 0 0) \<and> claimedRatio (newField 0 0) = NaN
   \<and> \<not> (\<exists>r. claimedRatio (newField 0 0) = Finite r \<and> 0 \<le> r \<and> r \<le> 1)"
proof -
  have "reachableField (newField 0 0)" by (rule reachableField.constructed)
  moreover have "claimedRatio (newField 0 0) = NaN"
    by (simp add: claimedRatio_def js_divide_def newField_def)
  ultimately show ?thesis by simp
qed

text \<open>
  C8, amended. In every field state reached from the constructor by writes of a stored
  state to a cell in bounds, by \<^verbatim>\<open>claim\<close> and by \<^verbatim>\<open>clearClaiming\<close>, the array has
  width times height cells, each counter equals the number of cells of the array in
  that state, the three counters of the stored states add up to width times height, and
  the claimed ratio is a number between 0 and 1 when the field has a cell and
  \<^verbatim>\<open>NaN\<close> when it has none.
\<close>

theorem reachable_field_counts:
  assumes "reachableField f"
  shows "cellsLength f = width f * height f
       \<and> cellCount f CLAIMED = countCells f CLAIMED
       \<and> cellCount f UNCLAIMED = countCells f UNCLAIMED
       \<and> cellCount f CLAIMING = countCells f CLAIMING
       \<and> cellCount f OUT_OF_BOUNDS = countCells f OUT_OF_BOUNDS
       \<and> cellCount f CLAIMED + cellCount f UNCLAIMED + cellCount f CLAIMING
           = int (width f * height f)
       \<and> (if width f * height f = 0 then claimedRatio f = NaN
           else \<exists>r. claimedRatio f = Finite r \<and> 0 \<le> r \<and> r \<le> 1)"
proof -
  have inv: "fieldInv f" using assms by (rule fieldInv_reachable)
  then have len: "cellsLength f = width f * height f"
    and counts: "\<And>s. cellCount f s = countCells f s"
    and stored: "\<forall>n \<in> set [0..<cellsLength f]. storedState (cells f (int n))"
    by (auto simp: fieldInv_def)
  have total: "countCells f CLAIMED + countCells f UNCLAIMED + countCells f CLAIMING
      = int (cellsLength f)"
  proof -
    have "int (length (filter (\<lambda>n. cells f (int n) = Some CLAIMED) [0..<cellsLength f])
        + length (filter (\<lambda>n. cells f (int n) = Some UNCLAIMED) [0..<cellsLength f])
        + length (filter (\<lambda>n. cells f (int n) = Some CLAIMING) [0..<cellsLength f]))
        = int (cellsLength f)"
      using stored_partition [OF stored] by simp
    then show ?thesis by (simp add: countCells_def)
  qed
  have lower: "0 \<le> countCells f CLAIMED" by (simp add: countCells_def)
  have upper: "countCells f CLAIMED \<le> int (cellsLength f)"
    unfolding countCells_def using length_filter_le [of _ "[0..<cellsLength f]"] by simp
  have ratio: "if width f * height f = 0 then claimedRatio f = NaN
      else \<exists>r. claimedRatio f = Finite r \<and> 0 \<le> r \<and> r \<le> 1"
  proof (cases "width f * height f = 0")
    case True
    then have "countCells f CLAIMED = 0" using len by (simp add: countCells_def)
    then show ?thesis using True len counts by (simp add: claimedRatio_def js_divide_def)
  next
    case False
    then have pos: "0 < cellsLength f" using len by simp
    have "real_of_int (countCells f CLAIMED) / real (cellsLength f) \<le> 1"
      using upper pos by (simp add: divide_le_eq_1 of_int_le_iff [symmetric] del: of_int_le_iff)
    moreover have "0 \<le> real_of_int (countCells f CLAIMED) / real (cellsLength f)"
      using lower by simp
    ultimately show ?thesis
      using False len counts by (simp add: claimedRatio_def js_divide_def del: mult_eq_0_iff)
  qed
  show ?thesis using len counts total ratio by simp
qed

subsection \<open>What one pass of the span fill does\<close>

lemma couldClaimAt_unmark:
  assumes "0 \<le> i"
  shows "couldClaimAt (unmark f i) j = (couldClaimAt f j \<and> j \<noteq> i)"
proof (cases "j = i")
  case True
  then show ?thesis by (auto simp: couldClaimAt_def unmark_def)
next
  case False
  then have "0 \<le> j \<Longrightarrow> nat j \<noteq> nat i" using assms by auto
  then show ?thesis using False by (auto simp: couldClaimAt_def unmark_def)
qed

lemma shouldStopScan_unmark:
  assumes "0 \<le> i"
  shows "shouldStopScan (unmark f i) j = (shouldStopScan f j \<or> j = i)"
  using couldClaimAt_unmark [OF assms, of f j]
  by (auto simp: shouldStopScan_def unmark_def)

lemma not_stopped_nonneg: "\<not> shouldStopScan f i \<Longrightarrow> 0 \<le> i"
  by (simp add: shouldStopScan_def couldClaimAt_def)

text \<open>
  The left scan from \<open>lx\<close> ends on some \<open>l\<close>: it has cleared exactly the flags of the
  indices above \<open>l\<close> up to \<open>lx\<close>, none of which was a boundary, and \<open>l\<close>, if still in
  the row, is a boundary.
\<close>

lemma scanLeft_spec:
  assumes "scanLeft f rowStart lx = (g, l)"
  shows "l \<le> lx
       \<and> (rowStart - 1 \<le> lx \<longrightarrow> rowStart - 1 \<le> l)
       \<and> (\<forall>j. couldClaimAt g j = (couldClaimAt f j \<and> \<not> (l < j \<and> j \<le> lx)))
       \<and> (\<forall>j. l < j \<and> j \<le> lx \<longrightarrow> \<not> shouldStopScan f j)
       \<and> (rowStart \<le> l \<longrightarrow> shouldStopScan f l)"
  using assms
proof (induction f rowStart lx arbitrary: g l rule: scanLeft.induct)
  case (1 f rowStart lx)
  show ?case
  proof (cases "rowStart \<le> lx \<and> \<not> shouldStopScan f lx")
    case False
    then have "scanLeft f rowStart lx = (f, lx)"
      by (subst scanLeft.simps) auto
    then have "g = f" and "l = lx"
      using "1.prems" by simp_all
    then show ?thesis using False by auto
  next
    case True
    then have nonneg: "0 \<le> lx" using not_stopped_nonneg by blast
    have "scanLeft f rowStart lx = scanLeft (unmark f lx) rowStart (lx - 1)"
      using True by (subst scanLeft.simps) simp
    then have rec: "scanLeft (unmark f lx) rowStart (lx - 1) = (g, l)"
      using "1.prems" by simp
    have IH: "l \<le> lx - 1
       \<and> (rowStart - 1 \<le> lx - 1 \<longrightarrow> rowStart - 1 \<le> l)
       \<and> (\<forall>j. couldClaimAt g j = (couldClaimAt (unmark f lx) j \<and> \<not> (l < j \<and> j \<le> lx - 1)))
       \<and> (\<forall>j. l < j \<and> j \<le> lx - 1 \<longrightarrow> \<not> shouldStopScan (unmark f lx) j)
       \<and> (rowStart \<le> l \<longrightarrow> shouldStopScan (unmark f lx) l)"
      using True rec by (intro "1.IH") simp_all
    then have below: "l \<le> lx - 1"
      and low: "rowStart - 1 \<le> lx - 1 \<longrightarrow> rowStart - 1 \<le> l"
      and ihFlags: "\<And>j. couldClaimAt g j = (couldClaimAt (unmark f lx) j \<and> \<not> (l < j \<and> j \<le> lx - 1))"
      and ihSpan: "\<And>j. l < j \<and> j \<le> lx - 1 \<Longrightarrow> \<not> shouldStopScan (unmark f lx) j"
      and ihStop: "rowStart \<le> l \<longrightarrow> shouldStopScan (unmark f lx) l"
      by blast+
    have flags: "couldClaimAt g j = (couldClaimAt f j \<and> \<not> (l < j \<and> j \<le> lx))" for j
      unfolding ihFlags couldClaimAt_unmark [OF nonneg] using below by auto
    have span: "\<not> shouldStopScan f j" if "l < j \<and> j \<le> lx" for j
    proof (cases "j = lx")
      case True
      then show ?thesis using \<open>rowStart \<le> lx \<and> \<not> shouldStopScan f lx\<close> by simp
    next
      case False
      then have "\<not> shouldStopScan (unmark f lx) j" using that by (intro ihSpan) simp
      then show ?thesis by (simp add: shouldStopScan_unmark [OF nonneg])
    qed
    have stop: "rowStart \<le> l \<longrightarrow> shouldStopScan f l"
      using ihStop below by (simp add: shouldStopScan_unmark [OF nonneg])
    have "l \<le> lx" using below by simp
    moreover have "rowStart - 1 \<le> lx \<longrightarrow> rowStart - 1 \<le> l" using low True by simp
    ultimately show ?thesis using flags span stop by blast
  qed
qed

lemma scanRight_spec:
  assumes "scanRight f rowEnd rx = (g, r)"
  shows "rx \<le> r
       \<and> (rx \<le> rowEnd + 1 \<longrightarrow> r \<le> rowEnd + 1)
       \<and> (\<forall>j. couldClaimAt g j = (couldClaimAt f j \<and> \<not> (rx \<le> j \<and> j < r)))
       \<and> (\<forall>j. rx \<le> j \<and> j < r \<longrightarrow> \<not> shouldStopScan f j)
       \<and> (r \<le> rowEnd \<longrightarrow> shouldStopScan f r)"
  using assms
proof (induction f rowEnd rx arbitrary: g r rule: scanRight.induct)
  case (1 f rowEnd rx)
  show ?case
  proof (cases "rx \<le> rowEnd \<and> \<not> shouldStopScan f rx")
    case False
    then have "scanRight f rowEnd rx = (f, rx)"
      by (subst scanRight.simps) auto
    then have "g = f" and "r = rx"
      using "1.prems" by simp_all
    then show ?thesis using False by auto
  next
    case True
    then have nonneg: "0 \<le> rx" using not_stopped_nonneg by blast
    have "scanRight f rowEnd rx = scanRight (unmark f rx) rowEnd (rx + 1)"
      using True by (subst scanRight.simps) simp
    then have rec: "scanRight (unmark f rx) rowEnd (rx + 1) = (g, r)"
      using "1.prems" by simp
    have IH: "rx + 1 \<le> r
       \<and> (rx + 1 \<le> rowEnd + 1 \<longrightarrow> r \<le> rowEnd + 1)
       \<and> (\<forall>j. couldClaimAt g j = (couldClaimAt (unmark f rx) j \<and> \<not> (rx + 1 \<le> j \<and> j < r)))
       \<and> (\<forall>j. rx + 1 \<le> j \<and> j < r \<longrightarrow> \<not> shouldStopScan (unmark f rx) j)
       \<and> (r \<le> rowEnd \<longrightarrow> shouldStopScan (unmark f rx) r)"
      using True rec by (intro "1.IH") simp_all
    then have above: "rx + 1 \<le> r"
      and high: "rx + 1 \<le> rowEnd + 1 \<longrightarrow> r \<le> rowEnd + 1"
      and ihFlags: "\<And>j. couldClaimAt g j = (couldClaimAt (unmark f rx) j \<and> \<not> (rx + 1 \<le> j \<and> j < r))"
      and ihSpan: "\<And>j. rx + 1 \<le> j \<and> j < r \<Longrightarrow> \<not> shouldStopScan (unmark f rx) j"
      and ihStop: "r \<le> rowEnd \<longrightarrow> shouldStopScan (unmark f rx) r"
      by blast+
    have flags: "couldClaimAt g j = (couldClaimAt f j \<and> \<not> (rx \<le> j \<and> j < r))" for j
      unfolding ihFlags couldClaimAt_unmark [OF nonneg] using above by auto
    have span: "\<not> shouldStopScan f j" if "rx \<le> j \<and> j < r" for j
    proof (cases "j = rx")
      case True
      then show ?thesis using \<open>rx \<le> rowEnd \<and> \<not> shouldStopScan f rx\<close> by simp
    next
      case False
      then have "\<not> shouldStopScan (unmark f rx) j" using that by (intro ihSpan) simp
      then show ?thesis by (simp add: shouldStopScan_unmark [OF nonneg])
    qed
    have stop: "r \<le> rowEnd \<longrightarrow> shouldStopScan f r"
      using ihStop above by (simp add: shouldStopScan_unmark [OF nonneg])
    have "rx \<le> r" using above by simp
    moreover have "rx \<le> rowEnd + 1 \<longrightarrow> r \<le> rowEnd + 1" using high True by simp
    ultimately show ?thesis using flags span stop by blast
  qed
qed

lemma set_pushAboveBelow:
  "set (pushAboveBelow f stack i) =
     set stack \<union> {k. (k = i - int (width f) \<or> k = i + int (width f)) \<and> \<not> shouldStopScan f k}"
  by (auto simp: pushAboveBelow_def Let_def)

lemma set_pushes:
  "set (foldl (pushAboveBelow f) stack js) =
     set stack \<union> {k. \<exists>j \<in> set js. (k = j - int (width f) \<or> k = j + int (width f))
                        \<and> \<not> shouldStopScan f k}"
proof (induction js arbitrary: stack)
  case Nil
  show ?case by simp
next
  case (Cons j js)
  show ?case
    unfolding foldl_Cons Cons.IH set_pushAboveBelow by auto
qed

lemma same_row_iff:
  fixes j w b :: int
  assumes "0 < w"
  shows "(j div w = b) = (b * w \<le> j \<and> j \<le> b * w + w - 1)"
proof
  assume "j div w = b"
  then have "j = b * w + j mod w" by (metis div_mult_mod_eq)
  moreover have "0 \<le> j mod w" "j mod w < w" using assms by simp_all
  ultimately show "b * w \<le> j \<and> j \<le> b * w + w - 1" by linarith
next
  assume range: "b * w \<le> j \<and> j \<le> b * w + w - 1"
  have "j = w * b + (j - b * w)" by (simp add: mult.commute)
  moreover have "0 \<le> j - b * w" "j - b * w < w" using range by simp_all
  ultimately show "j div w = b" by (rule int_div_pos_eq)
qed

lemma sameButFlags_cells:
  assumes "sameButFlags f g"
  shows "cells g = cells f" "width g = width f" "height g = height f"
    "length (couldClaim g) = length (couldClaim f)"
  using assms by (cases f; cases g; simp add: sameButFlags_def)+

text \<open>
  One pass on an index \<open>i\<close> that is no boundary, in a field of positive width: it clears
  the flags of a span of non-boundary cells around \<open>i\<close> within the row of \<open>i\<close>, whose
  ends are boundaries unless they lie outside the row, and pushes exactly the
  non-boundary cells above and below the span.
\<close>

lemma scanSpan_spec:
  assumes "0 < width f" and "\<not> shouldStopScan f i" and "scanSpan f i stack = (g, stack')"
  shows "\<exists>l r. l < i \<and> i < r
       \<and> i div int (width f) * int (width f) - 1 \<le> l
       \<and> r \<le> i div int (width f) * int (width f) + int (width f)
       \<and> (\<forall>j. couldClaimAt g j = (couldClaimAt f j \<and> \<not> (l < j \<and> j < r)))
       \<and> (\<forall>j. l < j \<and> j < r \<longrightarrow> \<not> shouldStopScan f j)
       \<and> (i div int (width f) * int (width f) \<le> l \<longrightarrow> shouldStopScan g l)
       \<and> (r \<le> i div int (width f) * int (width f) + int (width f) - 1 \<longrightarrow> shouldStopScan g r)
       \<and> set stack' = set stack \<union>
            {k. \<exists>j. l < j \<and> j < r \<and> (k = j - int (width f) \<or> k = j + int (width f))
                    \<and> \<not> shouldStopScan g k}
       \<and> sameButFlags f g"
proof -
  define rowStart where "rowStart = i div int (width f) * int (width f)"
  define rowEnd where "rowEnd = rowStart + int (width f) - 1"
  have rs: "efficientIndex f 0 (i div int (width f)) = rowStart"
    by (simp add: efficientIndex_def rowStart_def)
  have re: "efficientIndex f (int (width f) - 1) (i div int (width f)) = rowEnd"
    by (simp add: efficientIndex_def rowStart_def rowEnd_def)
  obtain f1 l where left: "scanLeft f rowStart i = (f1, l)" by (cases "scanLeft f rowStart i")
  obtain f2 r where right: "scanRight f1 rowEnd (i + 1) = (f2, r)"
    by (cases "scanRight f1 rowEnd (i + 1)")
  have "scanSpan f i stack = (f2, foldl (pushAboveBelow f2) stack [l + 1..r - 1])"
    using assms(1) by (simp add: scanSpan_def Let_def rs re left right)
  then have result: "g = f2" "stack' = foldl (pushAboveBelow f2) stack [l + 1..r - 1]"
    using assms(3) by auto
  have inRow: "rowStart \<le> i" "i \<le> rowEnd"
    using same_row_iff [of "int (width f)" i "i div int (width f)"] assms(1)
    by (simp_all add: rowStart_def rowEnd_def)
  note L = scanLeft_spec [OF left]
  note R = scanRight_spec [OF right]
  have same1: "sameButFlags f f1" using sameButFlags_scanLeft [of f rowStart i] left by simp
  have same2: "sameButFlags f1 f2" using sameButFlags_scanRight [of f1 rowEnd "i + 1"] right by simp
  have same: "sameButFlags f f2" using same1 same2 by (rule sameButFlags_trans)
  have stop_mono: "shouldStopScan f1 j \<Longrightarrow> shouldStopScan f2 j" for j
    using R sameButFlags_cells(1) [OF same2] by (auto simp: shouldStopScan_def)
  have stop_mono1: "shouldStopScan f j \<Longrightarrow> shouldStopScan f1 j" for j
    using L sameButFlags_cells(1) [OF same1] by (auto simp: shouldStopScan_def)
  have li: "l < i"
  proof (rule ccontr)
    assume "\<not> l < i"
    then have "l = i" using L by simp
    then show False using L inRow assms(2) by simp
  qed
  have ir: "i < r" using R by simp
  have low: "rowStart - 1 \<le> l" using L inRow by simp
  have high: "r \<le> rowEnd + 1" using R inRow by simp
  have flags: "couldClaimAt f2 j = (couldClaimAt f j \<and> \<not> (l < j \<and> j < r))" for j
  proof -
    have "couldClaimAt f2 j = (couldClaimAt f1 j \<and> \<not> (i + 1 \<le> j \<and> j < r))" using R by blast
    moreover have "couldClaimAt f1 j = (couldClaimAt f j \<and> \<not> (l < j \<and> j \<le> i))" using L by blast
    ultimately show ?thesis using li ir by auto
  qed
  have span: "\<not> shouldStopScan f j" if "l < j \<and> j < r" for j
  proof (cases "j \<le> i")
    case True
    then show ?thesis using L that by blast
  next
    case False
    then have "\<not> shouldStopScan f1 j" using R that by simp
    then show ?thesis using stop_mono1 by blast
  qed
  have stopL: "rowStart \<le> l \<longrightarrow> shouldStopScan f2 l"
    using L stop_mono stop_mono1 by blast
  have stopR: "r \<le> rowEnd \<longrightarrow> shouldStopScan f2 r"
    using R stop_mono by blast
  have "set [l + 1..r - 1] = {j. l < j \<and> j < r}" by auto
  then have pushes: "set stack' = set stack \<union>
      {k. \<exists>j. l < j \<and> j < r \<and> (k = j - int (width f) \<or> k = j + int (width f))
              \<and> \<not> shouldStopScan f2 k}"
    unfolding result set_pushes sameButFlags_cells(2) [OF same] by auto
  show ?thesis
    using li ir low high flags span stopL stopR pushes same
    unfolding result rowStart_def [symmetric] rowEnd_def
    by (intro exI [of _ l] exI [of _ r]) (simp add: algebra_simps)
qed

subsection \<open>The fill marks exactly the reachable cells\<close>

lemma shouldStopScan_iff:
  assumes "sameButFlags f0 g" and "length (couldClaim f0) = width f0 * height f0"
  shows "shouldStopScan g j = (\<not> openCell f0 j \<or> marked g j)"
  using sameButFlags_cells [OF assms(1)] assms(2)
  by (auto simp: shouldStopScan_def couldClaimAt_def openCell_def marked_def)

lemma marked_iff_flags:
  assumes "length (couldClaim g) = length (couldClaim f)"
    and "\<forall>j. couldClaimAt g j = (couldClaimAt f j \<and> \<not> (l < j \<and> j < r))"
    and "\<forall>j. l < j \<and> j < r \<longrightarrow> couldClaimAt f j"
  shows "marked g j = (marked f j \<or> (l < j \<and> j < r))"
proof (cases "0 \<le> j \<and> nat j < length (couldClaim f)")
  case True
  then have "marked g j = (\<not> couldClaimAt g j)" and "marked f j = (\<not> couldClaimAt f j)"
    using assms(1) by (auto simp: marked_def couldClaimAt_def)
  then show ?thesis using assms(2) by auto
next
  case False
  then have "\<not> couldClaimAt f j" by (auto simp: couldClaimAt_def)
  then have "\<not> (l < j \<and> j < r)" using assms(3) by blast
  then show ?thesis using False assms(1) by (auto simp: marked_def)
qed

lemma fillInv_pop:
  assumes "fillInv f0 S g (i # rest)" and "shouldStopScan g i"
    and "length (couldClaim f0) = width f0 * height f0"
  shows "fillInv f0 S g rest"
proof -
  have same: "sameButFlags f0 g" using assms(1) by (simp add: fillInv_def)
  have i: "openCell f0 i \<Longrightarrow> marked g i"
    using assms(2) shouldStopScan_iff [OF same assms(3)] by simp
  show ?thesis
    using assms(1) i unfolding fillInv_def by (simp, blast)
qed

lemma fillInv_span:
  assumes inv: "fillInv f0 S g (i # rest)" and go: "\<not> shouldStopScan g i"
    and len: "length (couldClaim f0) = width f0 * height f0"
  shows "fillInv f0 S (fst (scanSpan g i rest)) (snd (scanSpan g i rest))"
proof -
  define w where "w = int (width f0)"
  define R where "R = reachableCells f0 S"
  obtain g' st' where res: "scanSpan g i rest = (g', st')" by (cases "scanSpan g i rest")
  have same: "sameButFlags f0 g" using inv by (simp add: fillInv_def)
  have sound: "\<And>j. marked g j \<Longrightarrow> j \<in> R"
    and stackSound: "\<And>j. j \<in> set (i # rest) \<Longrightarrow> openCell f0 j \<Longrightarrow> j \<in> R"
    and closure: "\<And>j k. marked g j \<Longrightarrow> adjacent f0 j k \<Longrightarrow> openCell f0 k \<Longrightarrow>
        marked g k \<or> k \<in> set (i # rest)"
    and seeds: "\<And>s. s \<in> S \<Longrightarrow> openCell f0 s \<Longrightarrow> marked g s \<or> s \<in> set (i # rest)"
    using inv unfolding fillInv_def R_def by blast+
  note stop = shouldStopScan_iff [OF same len]
  have wg: "int (width g) = w" using sameButFlags_cells(2) [OF same] by (simp add: w_def)
  have open_i: "openCell f0 i" and unmarked_i: "\<not> marked g i" using go stop by auto
  then have "nat i < width f0 * height f0" by (simp add: openCell_def)
  then have "0 < width f0" by (cases "width f0") simp_all
  then have wpos: "0 < w" by (simp add: w_def)
  then have wgpos: "0 < width g" using wg by simp
  define rowStart where "rowStart = i div w * w"
  from scanSpan_spec [OF wgpos go res, unfolded wg]
  obtain l r where li: "l < i" and ir: "i < r"
    and low: "rowStart - 1 \<le> l" and high: "r \<le> rowStart + w"
    and flags: "\<forall>j. couldClaimAt g' j = (couldClaimAt g j \<and> \<not> (l < j \<and> j < r))"
    and span: "\<And>j. l < j \<and> j < r \<Longrightarrow> \<not> shouldStopScan g j"
    and stopL: "rowStart \<le> l \<longrightarrow> shouldStopScan g' l"
    and stopR: "r \<le> rowStart + w - 1 \<longrightarrow> shouldStopScan g' r"
    and pushes: "set st' = set rest \<union>
        {k. \<exists>j. l < j \<and> j < r \<and> (k = j - w \<or> k = j + w) \<and> \<not> shouldStopScan g' k}"
    and same': "sameButFlags g g'"
    unfolding rowStart_def by blast
  have same0: "sameButFlags f0 g'" using same same' by (rule sameButFlags_trans)
  note stop' = shouldStopScan_iff [OF same0 len]
  have spanOpen: "openCell f0 j" if "l < j \<and> j < r" for j
    using span [OF that] stop by simp
  have mark: "marked g' j = (marked g j \<or> (l < j \<and> j < r))" for j
  proof (rule marked_iff_flags)
    show "length (couldClaim g') = length (couldClaim g)"
      using sameButFlags_cells(4) [OF same'] .
    show "\<forall>j. couldClaimAt g' j = (couldClaimAt g j \<and> \<not> (l < j \<and> j < r))" by (rule flags)
    show "\<forall>j. l < j \<and> j < r \<longrightarrow> couldClaimAt g j"
      using span by (auto simp: shouldStopScan_def)
  qed
  have row: "j div w = i div w" if "l < j \<and> j < r" for j
    using that low high same_row_iff [OF wpos, of j "i div w"] by (simp add: rowStart_def)
  have i_R: "i \<in> R" using stackSound open_i by simp
  have right_R: "j < r \<longrightarrow> j \<in> R" if "i \<le> j" for j
    using that
  proof (induction j rule: int_ge_induct)
    case base
    show ?case using i_R by simp
  next
    case (step j)
    show ?case
    proof
      assume jr: "j + 1 < r"
      then have "j \<in> R" using step by simp
      moreover have "adjacent f0 j (j + 1)"
        using row [of j] row [of "j + 1"] jr step.hyps li by (simp add: adjacent_def w_def)
      moreover have "openCell f0 (j + 1)" using spanOpen [of "j + 1"] jr step.hyps li by simp
      ultimately show "j + 1 \<in> R" unfolding R_def by (rule reachableCells.step)
    qed
  qed
  have left_R: "l < j \<longrightarrow> j \<in> R" if "j \<le> i" for j
    using that
  proof (induction j rule: int_le_induct)
    case base
    show ?case using i_R by simp
  next
    case (step j)
    show ?case
    proof
      assume lj: "l < j - 1"
      then have "j \<in> R" using step by simp
      moreover have "adjacent f0 j (j - 1)"
        using row [of j] row [of "j - 1"] lj step.hyps ir by (simp add: adjacent_def w_def)
      moreover have "openCell f0 (j - 1)" using spanOpen [of "j - 1"] lj step.hyps ir by simp
      ultimately show "j - 1 \<in> R" unfolding R_def by (rule reachableCells.step)
    qed
  qed
  have span_R: "j \<in> R" if "l < j \<and> j < r" for j
    using that left_R [of j] right_R [of j] by (cases "j \<le> i") auto
  have sound': "j \<in> R" if "marked g' j" for j
    using that mark sound span_R by blast
  have stackSound': "j \<in> R" if "j \<in> set st'" and "openCell f0 j" for j
  proof (cases "j \<in> set rest")
    case True
    then show ?thesis using stackSound that(2) by simp
  next
    case False
    have "j \<in> set rest \<union>
        {k. \<exists>j. l < j \<and> j < r \<and> (k = j - w \<or> k = j + w) \<and> \<not> shouldStopScan g' k}"
      using that(1) unfolding pushes .
    then obtain k where k: "l < k \<and> k < r" and jk: "j = k - w \<or> j = k + w"
      using False by blast
    have "k \<in> R" using k by (rule span_R)
    moreover have "adjacent f0 k j" using jk by (auto simp: adjacent_def w_def)
    ultimately show ?thesis unfolding R_def using that(2) by (rule reachableCells.step)
  qed
  have boundary: "marked g' k" if "shouldStopScan g' k" and "openCell f0 k" for k
    using that stop' by simp
  have closure': "marked g' k \<or> k \<in> set st'"
    if j: "marked g' j" and adj: "adjacent f0 j k" and k: "openCell f0 k" for j k
  proof (cases "marked g j")
    case True
    then have "marked g k \<or> k \<in> set (i # rest)" using closure adj k by blast
    then show ?thesis using mark li ir pushes by auto
  next
    case False
    then have jspan: "l < j \<and> j < r" using j mark by simp
    consider (vertical) "k = j - w \<or> k = j + w"
      | (right) "k = j + 1" "k div w = j div w"
      | (left) "k = j - 1" "k div w = j div w"
      using adj by (auto simp: adjacent_def w_def)
    then show ?thesis
    proof cases
      case vertical
      show ?thesis
      proof (cases "shouldStopScan g' k")
        case True
        then show ?thesis using boundary k by blast
      next
        case False
        then have "k \<in> set st'" using pushes jspan vertical by blast
        then show ?thesis ..
      qed
    next
      case right
      show ?thesis
      proof (cases "k < r")
        case True
        then show ?thesis using mark jspan right(1) by simp
      next
        case False
        then have kr: "k = r" using jspan right(1) by simp
        have "k div w = i div w" using right(2) row [OF jspan] by simp
        then have "r \<le> rowStart + w - 1"
          using same_row_iff [OF wpos, of k "i div w"] kr by (simp add: rowStart_def)
        then have "shouldStopScan g' k" using stopR kr by simp
        then show ?thesis using boundary k by blast
      qed
    next
      case left
      show ?thesis
      proof (cases "l < k")
        case True
        then show ?thesis using mark jspan left(1) by simp
      next
        case False
        then have kl: "k = l" using jspan left(1) by simp
        have "k div w = i div w" using left(2) row [OF jspan] by simp
        then have "rowStart \<le> l"
          using same_row_iff [OF wpos, of k "i div w"] kl by (simp add: rowStart_def)
        then have "shouldStopScan g' k" using stopL kl by simp
        then show ?thesis using boundary k by blast
      qed
    qed
  qed
  have seeds': "marked g' s \<or> s \<in> set st'" if "s \<in> S" and "openCell f0 s" for s
  proof -
    have "marked g s \<or> s \<in> set (i # rest)" using seeds that by blast
    then show ?thesis using mark li ir pushes by auto
  qed
  have "fillInv f0 S g' st'"
    unfolding fillInv_def R_def [symmetric]
    using same0 sound' stackSound' closure' seeds' by blast
  then show ?thesis by (simp add: res)
qed

lemma fillInv_scanLoop:
  assumes "fillInv f0 S f stack" and "length (couldClaim f0) = width f0 * height f0"
  shows "\<exists>g. scanLoop f stack = Some g \<and> fillInv f0 S g []"
  using assms(1)
proof (rule scanLoop_rule [where I = "fillInv f0 S"])
  fix g i rest
  assume "fillInv f0 S g (i # rest)" and "shouldStopScan g i"
  then show "fillInv f0 S g rest" using assms(2) by (rule fillInv_pop)
next
  fix g i rest
  assume "fillInv f0 S g (i # rest)" and "\<not> shouldStopScan g i"
  then show "fillInv f0 S (fst (scanSpan g i rest)) (snd (scanSpan g i rest))"
    using assms(2) by (rule fillInv_span)
qed

lemma reachableCells_mono:
  assumes "S \<subseteq> T" and "j \<in> reachableCells f S"
  shows "j \<in> reachableCells f T"
  using assms(2)
proof (induction rule: reachableCells.induct)
  case (seed s)
  then have "s \<in> T" using assms(1) by auto
  then show ?case using seed(2) by (rule reachableCells.seed)
next
  case (step i j)
  show ?case using step(4,2,3) by (rule reachableCells.step)
qed

lemma fillInv_new_seed:
  assumes "fillInv f0 S g []"
  shows "fillInv f0 (insert s S) g [s]"
proof -
  have mono: "j \<in> reachableCells f0 S \<Longrightarrow> j \<in> reachableCells f0 (insert s S)" for j
    by (rule reachableCells_mono [of S]) auto
  have "openCell f0 s \<Longrightarrow> s \<in> reachableCells f0 (insert s S)"
    by (rule reachableCells.seed) simp_all
  then show ?thesis
    using assms mono unfolding fillInv_def by (simp, blast)
qed

lemma isInteger_of_int: "isInteger (of_int k)"
  by (simp add: isInteger_def)

lemma startScan_onGrid:
  assumes "onGrid f0 p" and "width f = width f0"
  shows "startScan f (xy_x p) (xy_y p) = scanLoop f [seedIndex f0 p]"
proof -
  have "of_int \<lfloor>xy_x p\<rfloor> = xy_x p"
    using assms(1) unfolding onGrid_def isInteger_def by blast
  then have a: "xy_x p = of_int (xRounded p)"
    unfolding xRounded_def by (rule sym)
  have "of_int \<lfloor>xy_y p\<rfloor> = xy_y p"
    using assms(1) unfolding onGrid_def isInteger_def by blast
  then have b: "xy_y p = of_int (yRounded p)"
    unfolding yRounded_def by (rule sym)
  have "efficientIndex f (xy_x p) (xy_y p) = of_int (seedIndex f0 p)"
    by (subst a, subst b) (simp add: efficientIndex_def seedIndex_def assms(2))
  then show ?thesis
    by (simp add: startScan_def Let_def isInteger_of_int)
qed

lemma fillInv_startScans:
  assumes "fillInv f0 S f []" and "length (couldClaim f0) = width f0 * height f0"
    and "\<forall>p \<in> set ps. onGrid f0 p"
  shows "\<exists>g. startScans f ps = Some g \<and> fillInv f0 (S \<union> seedIndex f0 ` set ps) g []"
  using assms(1,3)
proof (induction ps arbitrary: f S)
  case Nil
  then show ?case by simp
next
  case (Cons p ps)
  have "sameButFlags f0 f" using Cons.prems(1) by (simp add: fillInv_def)
  then have "width f = width f0" by (rule sameButFlags_cells(2))
  then have start: "startScan f (xy_x p) (xy_y p) = scanLoop f [seedIndex f0 p]"
    using Cons.prems(2) by (intro startScan_onGrid) simp
  have "fillInv f0 (insert (seedIndex f0 p) S) f [seedIndex f0 p]"
    using Cons.prems(1) by (rule fillInv_new_seed)
  then obtain h where h: "scanLoop f [seedIndex f0 p] = Some h"
    and inv: "fillInv f0 (insert (seedIndex f0 p) S) h []"
    using fillInv_scanLoop assms(2) by blast
  obtain g where "startScans h ps = Some g"
    and "fillInv f0 (insert (seedIndex f0 p) S \<union> seedIndex f0 ` set ps) g []"
    using Cons.IH [OF inv] Cons.prems(2) by auto
  then show ?case using start h by simp
qed

lemma fillInv_final:
  assumes "fillInv f0 S g []"
  shows "marked g j = (j \<in> reachableCells f0 S)"
proof
  assume "marked g j"
  then show "j \<in> reachableCells f0 S" using assms by (simp add: fillInv_def)
next
  assume "j \<in> reachableCells f0 S"
  then show "marked g j"
  proof (induction rule: reachableCells.induct)
    case (seed s)
    then show ?case using assms unfolding fillInv_def by auto
  next
    case (step i j)
    then show ?case using assms unfolding fillInv_def by auto
  qed
qed

lemma cells_claimMarked_aux:
  "cells (foldl (\<lambda>h n. if couldClaim h ! n then setCellDirect CLAIMED (int n) h else h) g ns) j
   = (if \<exists>n \<in> set ns. int n = j \<and> couldClaim g ! n then Some CLAIMED else cells g j)"
proof (induction ns arbitrary: g)
  case Nil
  show ?case by simp
next
  case (Cons n ns)
  show ?case
    unfolding foldl_Cons Cons.IH
    by (auto simp: cells_setCellDirect frame_setCellDirect)
qed

lemma cells_claimMarked:
  "cells (claimMarked g) j = (if couldClaimAt g j then Some CLAIMED else cells g j)"
proof -
  have "(\<exists>n \<in> set [0..<length (couldClaim g)]. int n = j \<and> couldClaim g ! n) = couldClaimAt g j"
    by (auto simp: couldClaimAt_def intro: bexI [of _ "nat j"])
  then show ?thesis
    unfolding claimMarked_def cells_claimMarked_aux by simp
qed

text \<open>
  For enemies that stand on cells of the grid, \<^verbatim>\<open>claim\<close> returns and leaves exactly
  the region the enemies can reach. With the trail sealed first, a cell of the grid ends
  claimed unless it is reachable in the sealed field from the cell of some enemy, and a
  reachable cell keeps the state it has in the sealed field.
\<close>

lemma claim_on_grid:
  assumes flags: "length (couldClaim f) = width f * height f"
    and enemies: "\<forall>p \<in> set ps. onGrid f p"
  shows "\<exists>g. claim f ps = Some g
     \<and> (\<forall>j. 0 \<le> j \<and> nat j < width f * height f \<longrightarrow>
           cells g j =
             (if j \<in> reachableCells (convertClaiming CLAIMED f) (seedIndex f ` set ps)
              then cells (convertClaiming CLAIMED f) j else Some CLAIMED))"
proof -
  define sealed where "sealed = convertClaiming CLAIMED f"
  define masked where "masked = sealed\<lparr>couldClaim := replicate (length (couldClaim sealed)) True\<rparr>"
  have frame: "width sealed = width f" "height sealed = height f"
      "length (couldClaim sealed) = length (couldClaim f)"
  proof -
    have "width (foldl (\<lambda>g i. if cells g (int i) = Some CLAIMING then setCellDirect CLAIMED (int i) g else g) h ns) = width h
        \<and> height (foldl (\<lambda>g i. if cells g (int i) = Some CLAIMING then setCellDirect CLAIMED (int i) g else g) h ns) = height h
        \<and> couldClaim (foldl (\<lambda>g i. if cells g (int i) = Some CLAIMING then setCellDirect CLAIMED (int i) g else g) h ns) = couldClaim h"
      for h ns
      by (induction ns arbitrary: h) (simp_all add: frame_setCellDirect)
    then show "width sealed = width f" "height sealed = height f"
      "length (couldClaim sealed) = length (couldClaim f)"
      by (simp_all add: sealed_def convertClaiming_def)
  qed
  have sameM: "sameButFlags sealed masked" by (simp add: masked_def sameButFlags_def)
  have lenM: "length (couldClaim masked) = width masked * height masked"
    using frame flags by (simp add: masked_def)
  have "\<not> marked masked j" for j by (simp add: masked_def marked_def)
  then have "fillInv masked {} masked []"
    by (simp add: fillInv_def sameButFlags_refl)
  moreover have "\<forall>p \<in> set ps. onGrid masked p"
    using enemies frame by (simp add: onGrid_def isOut_def masked_def)
  ultimately obtain s where s: "startScans masked ps = Some s"
    and inv: "fillInv masked ({} \<union> seedIndex masked ` set ps) s []"
    using fillInv_startScans [OF _ lenM] by blast
  have seedsEq: "seedIndex masked ` set ps = seedIndex f ` set ps"
    using frame by (simp add: seedIndex_def efficientIndex_def masked_def)
  have reachEq: "reachableCells masked S = reachableCells sealed S" for S
  proof -
    have o: "openCell masked = openCell sealed"
      using frame by (simp add: fun_eq_iff openCell_def masked_def)
    have a: "adjacent masked = adjacent sealed"
      by (simp add: fun_eq_iff adjacent_def masked_def)
    have "j \<in> reachableCells sealed S" if "j \<in> reachableCells masked S" for j
      using that
    proof (induction rule: reachableCells.induct)
      case (seed s)
      then show ?case by (simp add: o reachableCells.seed)
    next
      case (step i j)
      have "adjacent sealed i j" and "openCell sealed j" using step by (simp_all add: o a)
      with step(4) show ?case by (rule reachableCells.step)
    qed
    moreover have "j \<in> reachableCells masked S" if "j \<in> reachableCells sealed S" for j
      using that
    proof (induction rule: reachableCells.induct)
      case (seed s)
      then show ?case by (simp add: o reachableCells.seed)
    next
      case (step i j)
      have "adjacent masked i j" and "openCell masked j" using step by (simp_all add: o a)
      with step(4) show ?case by (rule reachableCells.step)
    qed
    ultimately show ?thesis by blast
  qed
  have final: "marked s j = (j \<in> reachableCells sealed (seedIndex f ` set ps))" for j
    using fillInv_final [OF inv, of j] by (simp add: seedsEq reachEq)
  have sameS: "sameButFlags masked s" using inv by (simp add: fillInv_def)
  have cellsS: "cells s = cells sealed"
    using sameButFlags_cells(1) [OF sameS] by (simp add: masked_def)
  have lenS: "length (couldClaim s) = width f * height f"
    using sameButFlags_cells(4) [OF sameS] lenM frame by (simp add: masked_def)
  have result: "claim f ps = Some (claimMarked s)"
    using s by (simp add: claim_def Let_def sealed_def masked_def)
  have "cells (claimMarked s) j =
      (if j \<in> reachableCells sealed (seedIndex f ` set ps) then cells sealed j else Some CLAIMED)"
    if "0 \<le> j \<and> nat j < width f * height f" for j
  proof -
    have "couldClaimAt s j = (\<not> marked s j)"
      using that lenS by (auto simp: couldClaimAt_def marked_def)
    then show ?thesis by (simp add: cells_claimMarked final cellsS)
  qed
  then show ?thesis using result unfolding sealed_def by blast
qed

subsection \<open>Evaluating the fill on a small field\<close>

lemma isInteger_eval: "isInteger q = (\<lfloor>q\<rfloor> = \<lceil>q\<rceil>)"
proof
  assume "isInteger q"
  then have "q = of_int \<lfloor>q\<rfloor>" unfolding isInteger_def by (rule sym)
  then have "\<lceil>q\<rceil> = \<lceil>(of_int \<lfloor>q\<rfloor> :: real)\<rceil>" by simp
  then show "\<lfloor>q\<rfloor> = \<lceil>q\<rceil>" by (simp only: ceiling_of_int)
next
  assume eq: "\<lfloor>q\<rfloor> = \<lceil>q\<rceil>"
  have "of_int \<lfloor>q\<rfloor> \<le> q" by (rule of_int_floor_le)
  moreover have "q \<le> of_int \<lceil>q\<rceil>" by (rule le_of_int_ceiling)
  ultimately have "of_int \<lfloor>q\<rfloor> = q" using eq by (simp only: order_antisym)
  then show "isInteger q" unfolding isInteger_def .
qed

lemmas field_evals = newField_def setCellByXY_def setCellDirect_def efficientIndex_def
  getCell_def isOut_def Let_def upt_rec

lemmas scan_evals = startScan_def efficientIndex_def isInteger_eval scanLoop.simps scanSpan_def
  scanLeft.simps scanRight.simps shouldStopScan_def couldClaimAt_def unmark_def
  pushAboveBelow_def upto.simps Let_def numeral_eq_Suc

lemma pocketField_eval:
  "pocketField =
     \<lparr>width = 3, height = 3,
      cells = [0 \<mapsto> UNCLAIMED, 1 \<mapsto> CLAIMED, 2 \<mapsto> UNCLAIMED, 3 \<mapsto> CLAIMED, 4 \<mapsto> UNCLAIMED,
               5 \<mapsto> UNCLAIMED, 6 \<mapsto> UNCLAIMED, 7 \<mapsto> UNCLAIMED, 8 \<mapsto> UNCLAIMED],
      cellsLength = 9, couldClaim = replicate 9 False,
      cellCount = (\<lambda>_. 0)(UNCLAIMED := 7, CLAIMED := 2)\<rparr>"
  by (simp add: pocketField_def field_evals fun_eq_iff)

lemma pocketField_sealed: "convertClaiming CLAIMED pocketField = pocketField"
  by (simp add: pocketField_eval convertClaiming_def upt_rec)

lemma pocketField_reachable: "reachableField pocketField"
proof -
  have "reachableField (newField 3 3)" by (rule reachableField.constructed)
  then have "reachableField (setCellByXY CLAIMED 0 1 (newField 3 3))"
    by (rule reachableField.cellSet) (simp_all add: field_evals)
  then show ?thesis
    unfolding pocketField_def by (rule reachableField.cellSet) (simp_all add: field_evals)
qed

theorem reachable_field_counts_witness:
  "reachableField pocketField
   \<and> cellCount pocketField CLAIMED = 2
   \<and> countCells pocketField CLAIMED = 2
   \<and> cellCount pocketField CLAIMED + cellCount pocketField UNCLAIMED
        + cellCount pocketField CLAIMING = 9
   \<and> (\<exists>r. claimedRatio pocketField = Finite r \<and> 0 \<le> r \<and> r \<le> 1)"
proof -
  have w: "width pocketField = 3" and h: "height pocketField = 3"
    and c: "cellCount pocketField CLAIMED = 2"
    by (simp_all add: pocketField_eval)
  show ?thesis
    using reachable_field_counts [OF pocketField_reachable] pocketField_reachable w h c by simp
qed

lemma pocketField_claimMarked_all:
  "cells (claimMarked (pocketField\<lparr>couldClaim := replicate 9 True\<rparr>))
   = [0 \<mapsto> CLAIMED, 1 \<mapsto> CLAIMED, 2 \<mapsto> CLAIMED, 3 \<mapsto> CLAIMED, 4 \<mapsto> CLAIMED,
      5 \<mapsto> CLAIMED, 6 \<mapsto> CLAIMED, 7 \<mapsto> CLAIMED, 8 \<mapsto> CLAIMED]"
  by (simp add: pocketField_eval claimMarked_def setCellDirect_def upt_rec fun_eq_iff)

lemma pocketField_claimMarked_corner:
  "cells (claimMarked (pocketField\<lparr>couldClaim := [True, True, False, True, False, False, False, False, False]\<rparr>))
   = [0 \<mapsto> CLAIMED, 1 \<mapsto> CLAIMED, 2 \<mapsto> UNCLAIMED, 3 \<mapsto> CLAIMED, 4 \<mapsto> UNCLAIMED,
      5 \<mapsto> UNCLAIMED, 6 \<mapsto> UNCLAIMED, 7 \<mapsto> UNCLAIMED, 8 \<mapsto> UNCLAIMED]"
  by (simp add: pocketField_eval claimMarked_def setCellDirect_def upt_rec fun_eq_iff)

lemma pocketField_claimMarked_rest:
  "cells (claimMarked (pocketField\<lparr>couldClaim := [False, True, True, True, True, True, True, True, True]\<rparr>))
   = [0 \<mapsto> UNCLAIMED, 1 \<mapsto> CLAIMED, 2 \<mapsto> CLAIMED, 3 \<mapsto> CLAIMED, 4 \<mapsto> CLAIMED,
      5 \<mapsto> CLAIMED, 6 \<mapsto> CLAIMED, 7 \<mapsto> CLAIMED, 8 \<mapsto> CLAIMED]"
  by (simp add: pocketField_eval claimMarked_def setCellDirect_def upt_rec fun_eq_iff)

lemma pocketField_flags: "length (couldClaim pocketField) = 9"
  by (simp add: pocketField_eval)

text \<open>
  C3 at a failing input. On \<open>pocketField\<close> an enemy at (0.5, 2) has the floored position
  (0,2), an unclaimed cell joined to five more. The source seeds at the raw coordinates:
  \<^verbatim>\<open>2 * 3 + 0.5\<close> is no array index, nothing is marked and the whole field, the
  enemy's own cell with it, is claimed. Seeded at the floored position (0,2) the same
  field keeps all six cells unclaimed and claims only the corner.
\<close>

theorem claim_seed_not_floored:
  "xRounded \<lparr>xy_x = 1 / 2, xy_y = 2\<rparr> = 0 \<and> yRounded \<lparr>xy_x = 1 / 2, xy_y = 2\<rparr> = 2
   \<and> getCell pocketField 0 2 = Some UNCLAIMED
   \<and> map_option cells (claim pocketField [\<lparr>xy_x = 1 / 2, xy_y = 2\<rparr>]) =
       Some [0 \<mapsto> CLAIMED, 1 \<mapsto> CLAIMED, 2 \<mapsto> CLAIMED, 3 \<mapsto> CLAIMED, 4 \<mapsto> CLAIMED,
             5 \<mapsto> CLAIMED, 6 \<mapsto> CLAIMED, 7 \<mapsto> CLAIMED, 8 \<mapsto> CLAIMED]
   \<and> map_option cells (claim pocketField [\<lparr>xy_x = 0, xy_y = 2\<rparr>]) =
       Some [0 \<mapsto> CLAIMED, 1 \<mapsto> CLAIMED, 2 \<mapsto> UNCLAIMED, 3 \<mapsto> CLAIMED, 4 \<mapsto> UNCLAIMED,
             5 \<mapsto> UNCLAIMED, 6 \<mapsto> UNCLAIMED, 7 \<mapsto> UNCLAIMED, 8 \<mapsto> UNCLAIMED]"
proof -
  have raw: "startScans (pocketField\<lparr>couldClaim := replicate 9 True\<rparr>) [\<lparr>xy_x = 1 / 2, xy_y = 2\<rparr>]
      = Some (pocketField\<lparr>couldClaim := replicate 9 True\<rparr>)"
    by (simp add: pocketField_eval startScan_def efficientIndex_def isInteger_eval Let_def)
  have floored: "startScans (pocketField\<lparr>couldClaim := replicate 9 True\<rparr>) [\<lparr>xy_x = 0, xy_y = 2\<rparr>]
      = Some (pocketField\<lparr>couldClaim := [True, True, False, True, False, False, False, False, False]\<rparr>)"
    by (simp add: pocketField_eval scan_evals)
  have "map_option cells (claim pocketField [\<lparr>xy_x = 1 / 2, xy_y = 2\<rparr>]) =
      Some (cells (claimMarked (pocketField\<lparr>couldClaim := replicate 9 True\<rparr>)))"
    by (simp only: claim_def Let_def pocketField_sealed pocketField_flags raw option.case option.map)
  moreover have "map_option cells (claim pocketField [\<lparr>xy_x = 0, xy_y = 2\<rparr>]) =
      Some (cells (claimMarked (pocketField\<lparr>couldClaim := [True, True, False, True, False, False, False, False, False]\<rparr>)))"
    by (simp only: claim_def Let_def pocketField_sealed pocketField_flags floored option.case option.map)
  moreover have "getCell pocketField 0 2 = Some UNCLAIMED"
    by (simp add: pocketField_eval getCell_def isOut_def efficientIndex_def)
  ultimately show ?thesis
    by (simp add: pocketField_claimMarked_all pocketField_claimMarked_corner xRounded_def yRounded_def)
qed

text \<open>
  C1 at a failing input. On \<open>pocketField\<close> an enemy at (0.5, 0.5) stands on the corner
  cell (0,0), from which no other unclaimed cell can be reached. The raw coordinates
  give the index \<^verbatim>\<open>0.5 * 3 + 0.5 = 2\<close>, the cell (2,0) on the other side of the
  claimed cells: the six cells the enemy cannot reach stay unclaimed and the enemy's
  own cell is claimed. Seeded at (0,0), the fill does the opposite.
\<close>

theorem claim_seed_aliases_other_cell:
  "xRounded \<lparr>xy_x = 1 / 2, xy_y = 1 / 2\<rparr> = 0 \<and> yRounded \<lparr>xy_x = 1 / 2, xy_y = 1 / 2\<rparr> = 0
   \<and> getCell pocketField 0 0 = Some UNCLAIMED
   \<and> getCell pocketField 1 0 = Some CLAIMED
   \<and> getCell pocketField 0 1 = Some CLAIMED
   \<and> map_option cells (claim pocketField [\<lparr>xy_x = 1 / 2, xy_y = 1 / 2\<rparr>]) =
       Some [0 \<mapsto> CLAIMED, 1 \<mapsto> CLAIMED, 2 \<mapsto> UNCLAIMED, 3 \<mapsto> CLAIMED, 4 \<mapsto> UNCLAIMED,
             5 \<mapsto> UNCLAIMED, 6 \<mapsto> UNCLAIMED, 7 \<mapsto> UNCLAIMED, 8 \<mapsto> UNCLAIMED]
   \<and> map_option cells (claim pocketField [\<lparr>xy_x = 0, xy_y = 0\<rparr>]) =
       Some [0 \<mapsto> UNCLAIMED, 1 \<mapsto> CLAIMED, 2 \<mapsto> CLAIMED, 3 \<mapsto> CLAIMED, 4 \<mapsto> CLAIMED,
             5 \<mapsto> CLAIMED, 6 \<mapsto> CLAIMED, 7 \<mapsto> CLAIMED, 8 \<mapsto> CLAIMED]"
proof -
  have raw: "startScans (pocketField\<lparr>couldClaim := replicate 9 True\<rparr>) [\<lparr>xy_x = 1 / 2, xy_y = 1 / 2\<rparr>]
      = Some (pocketField\<lparr>couldClaim := [True, True, False, True, False, False, False, False, False]\<rparr>)"
    by (simp add: pocketField_eval scan_evals)
  have floored: "startScans (pocketField\<lparr>couldClaim := replicate 9 True\<rparr>) [\<lparr>xy_x = 0, xy_y = 0\<rparr>]
      = Some (pocketField\<lparr>couldClaim := [False, True, True, True, True, True, True, True, True]\<rparr>)"
    by (simp add: pocketField_eval scan_evals)
  have "map_option cells (claim pocketField [\<lparr>xy_x = 1 / 2, xy_y = 1 / 2\<rparr>]) =
      Some (cells (claimMarked (pocketField\<lparr>couldClaim := [True, True, False, True, False, False, False, False, False]\<rparr>)))"
    by (simp only: claim_def Let_def pocketField_sealed pocketField_flags raw option.case option.map)
  moreover have "map_option cells (claim pocketField [\<lparr>xy_x = 0, xy_y = 0\<rparr>]) =
      Some (cells (claimMarked (pocketField\<lparr>couldClaim := [False, True, True, True, True, True, True, True, True]\<rparr>)))"
    by (simp only: claim_def Let_def pocketField_sealed pocketField_flags floored option.case option.map)
  moreover have "getCell pocketField 0 0 = Some UNCLAIMED" "getCell pocketField 1 0 = Some CLAIMED"
      "getCell pocketField 0 1 = Some CLAIMED"
    by (simp_all add: pocketField_eval getCell_def isOut_def efficientIndex_def)
  ultimately show ?thesis
    by (simp add: pocketField_claimMarked_rest pocketField_claimMarked_corner xRounded_def yRounded_def)
qed

end
